theory Spec2Isabelle
  imports Complex_Main
begin

section \<open>Byte strings and the functions of Go's \<open>strings\<close> package\<close>

text \<open>
  A Go string is a sequence of bytes and \<open>len\<close> counts bytes, so a Go string is a
  \<open>char list\<close> here (a \<open>char\<close> is one byte) and Go's \<open>int\<close> is \<open>int\<close>: the only
  arithmetic the code does on it is on lengths and counters of lists that fit in memory.
  The library functions below follow the Go standard library. Those that look at Unicode
  code points (\<open>ToLower\<close>, \<open>TrimSpace\<close>, and \<open>Split\<close> and \<open>ReplaceAll\<close> with an empty
  separator) decode the bytes as UTF-8 the way package \<open>utf8\<close> does.
\<close>

definition byte :: "char \<Rightarrow> nat" where
  "byte c = of_char c"

definition HasPrefix :: "string \<Rightarrow> string \<Rightarrow> bool" where
  "HasPrefix s pre = (length pre \<le> length s \<and> take (length pre) s = pre)"

definition HasSuffix :: "string \<Rightarrow> string \<Rightarrow> bool" where
  "HasSuffix s suf = (length suf \<le> length s \<and> drop (length s - length suf) s = suf)"

text \<open>\<open>strings.Index\<close>: the byte offset of the first occurrence, \<open>-1\<close> when there is none.\<close>

fun Index :: "string \<Rightarrow> string \<Rightarrow> int" where
  "Index [] substr = (if substr = [] then 0 else - 1)"
| "Index (c # cs) substr =
     (if HasPrefix (c # cs) substr then 0
      else (let i = Index cs substr in if i = - 1 then - 1 else i + 1))"

definition Contains :: "string \<Rightarrow> string \<Rightarrow> bool" where
  "Contains s substr = (Index s substr \<ge> 0)"

subsection \<open>UTF-8 decoding\<close>

text \<open>
  A code point (Go's \<open>rune\<close>) is kept as its UTF-8 encoding: one to four bytes.
  \<open>RuneError\<close> is U+FFFD, which decoding gives for a byte that starts no valid sequence.
\<close>

type_synonym rune = string

definition RuneSelf :: nat where
  "RuneSelf = 0x80"

definition RuneError :: rune where
  "RuneError = [CHR 0xEF, CHR 0xBF, CHR 0xBD]"

text \<open>
  The table \<open>first\<close> of package \<open>utf8\<close>: the length of the sequence that a byte starts
  (\<open>0\<close> when it starts none) and the range accepted for the second byte of the sequence.
\<close>

definition first_size :: "char \<Rightarrow> nat" where
  "first_size s0 =
     (if byte s0 < 0x80 then 1
      else if byte s0 < 0xC2 then 0
      else if byte s0 < 0xE0 then 2
      else if byte s0 < 0xF0 then 3
      else if byte s0 < 0xF5 then 4
      else 0)"

definition accept_lo :: "char \<Rightarrow> nat" where
  "accept_lo s0 = (if byte s0 = 0xE0 then 0xA0 else if byte s0 = 0xF0 then 0x90 else 0x80)"

definition accept_hi :: "char \<Rightarrow> nat" where
  "accept_hi s0 = (if byte s0 = 0xED then 0x9F else if byte s0 = 0xF4 then 0x8F else 0xBF)"

text \<open>\<open>utf8.DecodeRuneInString\<close>: the first code point of \<open>s\<close> and its width in bytes.\<close>

definition DecodeRuneInString :: "string \<Rightarrow> rune \<times> nat" where
  "DecodeRuneInString s =
     (if length s < 1 then (RuneError, 0)
      else
        let s0 = s ! 0; sz = first_size s0 in
        if sz = 1 then ([s0], 1)
        else if sz = 0 then (RuneError, 1)
        else if length s < sz then (RuneError, 1)
        else if byte (s ! 1) < accept_lo s0 \<or> accept_hi s0 < byte (s ! 1) then (RuneError, 1)
        else if sz \<le> 2 then (take 2 s, 2)
        else if byte (s ! 2) < 0x80 \<or> 0xBF < byte (s ! 2) then (RuneError, 1)
        else if sz \<le> 3 then (take 3 s, 3)
        else if byte (s ! 3) < 0x80 \<or> 0xBF < byte (s ! 3) then (RuneError, 1)
        else (take 4 s, 4))"

lemma DecodeRuneInString_size: "s \<noteq> [] \<Longrightarrow> 1 \<le> snd (DecodeRuneInString s)"
  by (cases s) (simp_all add: DecodeRuneInString_def Let_def)

text \<open>The code points and widths that \<open>for _, c := range s\<close> goes through.\<close>

function range_runes :: "string \<Rightarrow> (rune \<times> nat) list" where
  "range_runes s =
     (if s = [] then []
      else DecodeRuneInString s # range_runes (drop (snd (DecodeRuneInString s)) s))"
  by pat_completeness auto
termination
proof (relation "measure length")
  show "wf (measure length)" by simp
next
  fix s :: string
  assume "s \<noteq> []"
  then show "(drop (snd (DecodeRuneInString s)) s, s) \<in> measure length"
    using DecodeRuneInString_size[of s] by (cases s) simp_all
qed

declare range_runes.simps [simp del]

definition RuneStart :: "char \<Rightarrow> bool" where
  "RuneStart b = (\<not> (0x80 \<le> byte b \<and> byte b < 0xC0))"

text \<open>
  \<open>utf8.DecodeLastRuneInString\<close>: it looks for the start of the last sequence among the
  last four bytes, from the end backwards, and decodes from there.
\<close>

definition DecodeLastRuneInString :: "string \<Rightarrow> rune \<times> nat" where
  "DecodeLastRuneInString s =
     (let end = length s in
      if end = 0 then (RuneError, 0)
      else if byte (s ! (end - 1)) < RuneSelf then ([s ! (end - 1)], 1)
      else
        let lim = end - 4;
            start = (case find (\<lambda>k. RuneStart (s ! k)) (rev [lim ..< end - 1]) of
                       Some k \<Rightarrow> k
                     | None \<Rightarrow> lim - 1);
            (r, size) = DecodeRuneInString (drop start s)
        in if start + size \<noteq> end then (RuneError, 1) else (r, size))"

lemma find_in_set: "find P xs = Some x \<Longrightarrow> x \<in> set xs"
  by (induction xs) (auto split: if_splits)

lemma DecodeLastRuneInString_size: "s \<noteq> [] \<Longrightarrow> 1 \<le> snd (DecodeLastRuneInString s)"
proof -
  assume ne: "s \<noteq> []"
  define lim where "lim = length s - 4"
  define start where "start = (case find (\<lambda>k. RuneStart (s ! k)) (rev [lim ..< length s - 1]) of
                       Some k \<Rightarrow> k | None \<Rightarrow> lim - 1)"
  have "start < length s"
  proof (cases "find (\<lambda>k. RuneStart (s ! k)) (rev [lim ..< length s - 1])")
    case None
    with ne show ?thesis by (simp add: start_def lim_def)
  next
    case (Some k)
    then have "k \<in> set (rev [lim ..< length s - 1])" by (rule find_in_set)
    then have "k < length s" by auto
    with Some show ?thesis by (simp add: start_def)
  qed
  then have d: "drop start s \<noteq> []" by simp
  obtain r size where rs: "DecodeRuneInString (drop start s) = (r, size)"
    by (cases "DecodeRuneInString (drop start s)")
  with DecodeRuneInString_size[OF d] have "1 \<le> size" by simp
  with ne rs show ?thesis
    unfolding DecodeLastRuneInString_def Let_def lim_def[symmetric] start_def[symmetric]
    by simp
qed

subsection \<open>Case and white space\<close>

text \<open>
  \<open>unicode.IsSpace\<close>: the code points with Unicode's property White_Space, which are
  U+0009 to U+000D, U+0020, U+0085, U+00A0, U+1680, U+2000 to U+200A, U+2028, U+2029,
  U+202F, U+205F and U+3000.
\<close>

definition IsSpace :: "rune \<Rightarrow> bool" where
  "IsSpace r =
     (r \<in> set [[CHR 0x09], [CHR 0x0A], [CHR 0x0B], [CHR 0x0C], [CHR 0x0D], [CHR 0x20],
               [CHR 0xC2, CHR 0x85], [CHR 0xC2, CHR 0xA0],
               [CHR 0xE1, CHR 0x9A, CHR 0x80],
               [CHR 0xE2, CHR 0x80, CHR 0x80], [CHR 0xE2, CHR 0x80, CHR 0x81],
               [CHR 0xE2, CHR 0x80, CHR 0x82], [CHR 0xE2, CHR 0x80, CHR 0x83],
               [CHR 0xE2, CHR 0x80, CHR 0x84], [CHR 0xE2, CHR 0x80, CHR 0x85],
               [CHR 0xE2, CHR 0x80, CHR 0x86], [CHR 0xE2, CHR 0x80, CHR 0x87],
               [CHR 0xE2, CHR 0x80, CHR 0x88], [CHR 0xE2, CHR 0x80, CHR 0x89],
               [CHR 0xE2, CHR 0x80, CHR 0x8A],
               [CHR 0xE2, CHR 0x80, CHR 0xA8], [CHR 0xE2, CHR 0x80, CHR 0xA9],
               [CHR 0xE2, CHR 0x80, CHR 0xAF], [CHR 0xE2, CHR 0x81, CHR 0x9F],
               [CHR 0xE3, CHR 0x80, CHR 0x80]])"

text \<open>The ASCII letters: \<open>'A' <= c && c <= 'Z'\<close> and \<open>c += 'a' - 'A'\<close>.\<close>

definition is_upper :: "char \<Rightarrow> bool" where
  "is_upper c = (0x41 \<le> byte c \<and> byte c \<le> 0x5A)"

definition lower_byte :: "char \<Rightarrow> char" where
  "lower_byte c = (if is_upper c then char_of (byte c + 0x20) else c)"

text \<open>
  \<open>unicode.ToLower\<close> maps an ASCII code point as above and looks every other code point
  up in the case tables of package \<open>unicode\<close>. These tables are not part of this
  repository: the lower case of the code points from U+0080 on is the parameter \<open>tbl\<close>,
  and everything below is stated for every such table.
\<close>

type_synonym case_table = "rune \<Rightarrow> rune"

definition unicode_ToLower :: "case_table \<Rightarrow> rune \<Rightarrow> rune" where
  "unicode_ToLower tbl r =
     (if length r = 1 \<and> byte (r ! 0) < RuneSelf then [lower_byte (r ! 0)] else tbl r)"

text \<open>
  \<open>strings.Map\<close>: the encodings of the mapped code points, one after the other; a byte
  that starts no valid sequence counts as \<open>RuneError\<close>. (When the mapping changes nothing
  and all of \<open>s\<close> is valid, this is \<open>s\<close> itself, which is what the code returns then.)
\<close>

definition Map :: "(rune \<Rightarrow> rune) \<Rightarrow> string \<Rightarrow> string" where
  "Map mapping s = concat (map (\<lambda>(c, width). mapping c) (range_runes s))"

text \<open>
  \<open>strings.ToLower\<close>: a string of ASCII bytes is lowered byte by byte, any other string
  code point by code point.
\<close>

definition ToLower :: "case_table \<Rightarrow> string \<Rightarrow> string" where
  "ToLower tbl s =
     (if list_all (\<lambda>c. byte c < RuneSelf) s then map lower_byte s
      else Map (unicode_ToLower tbl) s)"

definition TrimLeft :: "string \<Rightarrow> string \<Rightarrow> string" where
  "TrimLeft s cutset = dropWhile (\<lambda>c. c \<in> set cutset) s"

definition TrimRight :: "string \<Rightarrow> string \<Rightarrow> string" where
  "TrimRight s cutset = rev (dropWhile (\<lambda>c. c \<in> set cutset) (rev s))"

fun Join :: "string list \<Rightarrow> string \<Rightarrow> string" where
  "Join [] sep = []"
| "Join [x] sep = x"
| "Join (x # y # ys) sep = x @ sep @ Join (y # ys) sep"

text \<open>The verb \<open>%d\<close> of \<open>fmt.Sprintf\<close>: an integer in decimal.\<close>

definition digit_char :: "nat \<Rightarrow> char" where
  "digit_char d = ''0123456789'' ! d"

fun digits :: "nat \<Rightarrow> string" where
  "digits n = (if n < 10 then [digit_char n] else digits (n div 10) @ [digit_char (n mod 10)])"

declare digits.simps [simp del]

definition Itoa :: "int \<Rightarrow> string" where
  "Itoa n = (if n < 0 then CHR ''-'' # digits (nat (- n)) else digits (nat n))"

text \<open>
  \<open>strings.TrimLeftFunc\<close>, \<open>strings.TrimRightFunc\<close> and \<open>strings.TrimFunc\<close>, with the two
  searches \<open>indexFunc\<close> and \<open>lastIndexFunc\<close> they are made of.
\<close>

function indexFunc :: "string \<Rightarrow> (rune \<Rightarrow> bool) \<Rightarrow> bool \<Rightarrow> int" where
  "indexFunc s f truth =
     (if s = [] then - 1
      else
        let (r, width) = DecodeRuneInString s in
        if f r = truth then 0
        else (let i = indexFunc (drop width s) f truth in
              if i = - 1 then - 1 else int width + i))"
  by pat_completeness auto
termination
proof (relation "measure (\<lambda>(s, f, truth). length s)")
  show "wf (measure (\<lambda>(s, f, truth). length s))" by simp
next
  fix s :: string and f :: "rune \<Rightarrow> bool" and truth :: bool and x r width
  assume "s \<noteq> []" and "x = DecodeRuneInString s" and "(r, width) = x"
  then show "((drop width s, f, truth), (s, f, truth)) \<in> measure (\<lambda>(s, f, truth). length s)"
    using DecodeRuneInString_size[of s] by (cases s) (simp_all add: prod_eq_iff)
qed

declare indexFunc.simps [simp del]

function lastIndexFunc :: "string \<Rightarrow> (rune \<Rightarrow> bool) \<Rightarrow> bool \<Rightarrow> int" where
  "lastIndexFunc s f truth =
     (if s = [] then - 1
      else
        let (r, size) = DecodeLastRuneInString s;
            i = length s - size
        in if f r = truth then int i else lastIndexFunc (take i s) f truth)"
  by pat_completeness auto
termination
proof (relation "measure (\<lambda>(s, f, truth). length s)")
  show "wf (measure (\<lambda>(s, f, truth). length s))" by simp
next
  fix s :: string and f :: "rune \<Rightarrow> bool" and truth :: bool and x r size i
  assume "s \<noteq> []" and "x = DecodeLastRuneInString s" and "(r, size) = x" and "i = length s - size"
  then show "((take i s, f, truth), (s, f, truth)) \<in> measure (\<lambda>(s, f, truth). length s)"
    using DecodeLastRuneInString_size[of s] by (cases s) (simp_all add: prod_eq_iff)
qed

declare lastIndexFunc.simps [simp del]

definition TrimLeftFunc :: "string \<Rightarrow> (rune \<Rightarrow> bool) \<Rightarrow> string" where
  "TrimLeftFunc s f =
     (let i = indexFunc s f False in
      if i = - 1 then [] else drop (nat i) s)"

definition TrimRightFunc :: "string \<Rightarrow> (rune \<Rightarrow> bool) \<Rightarrow> string" where
  "TrimRightFunc s f =
     (let i = lastIndexFunc s f False in
      if i \<ge> 0 \<and> byte (s ! nat i) \<ge> RuneSelf
      then take (nat i + snd (DecodeRuneInString (drop (nat i) s))) s
      else take (nat (i + 1)) s)"

definition TrimFunc :: "string \<Rightarrow> (rune \<Rightarrow> bool) \<Rightarrow> string" where
  "TrimFunc s f = TrimRightFunc (TrimLeftFunc s f) f"

text \<open>
  \<open>strings.TrimSpace\<close>: its two loops over the ASCII white space, from the start and from
  the end, each of which hands over to the functions above at the first byte that is not
  ASCII.
\<close>

definition asciiSpace :: "char \<Rightarrow> bool" where
  "asciiSpace c = (c \<in> set [CHR 0x09, CHR 0x0A, CHR 0x0B, CHR 0x0C, CHR 0x0D, CHR 0x20])"

function TrimSpace_stop :: "string \<Rightarrow> string" where
  "TrimSpace_stop s =
     (if s = [] then []
      else if byte (last s) \<ge> RuneSelf then TrimRightFunc s IsSpace
      else if asciiSpace (last s) then TrimSpace_stop (butlast s)
      else s)"
  by pat_completeness auto
termination
  by (relation "measure length") auto

declare TrimSpace_stop.simps [simp del]

fun TrimSpace :: "string \<Rightarrow> string" where
  "TrimSpace [] = []"
| "TrimSpace (c # cs) =
     (if byte c \<ge> RuneSelf then TrimFunc (c # cs) IsSpace
      else if asciiSpace c then TrimSpace cs
      else TrimSpace_stop (c # cs))"

definition TrimPrefix :: "string \<Rightarrow> string \<Rightarrow> string" where
  "TrimPrefix s pre = (if HasPrefix s pre then drop (length pre) s else s)"

definition TrimSuffix :: "string \<Rightarrow> string \<Rightarrow> string" where
  "TrimSuffix s suf = (if HasSuffix s suf then take (length s - length suf) s else s)"

text \<open>
  \<open>explode\<close> of package \<open>strings\<close>: the UTF-8 sequences of \<open>s\<close>, a byte that starts no
  valid sequence standing alone.
\<close>

function explode :: "string \<Rightarrow> string list" where
  "explode s =
     (if s = [] then []
      else take (snd (DecodeRuneInString s)) s # explode (drop (snd (DecodeRuneInString s)) s))"
  by pat_completeness auto
termination
proof (relation "measure length")
  show "wf (measure length)" by simp
next
  fix s :: string
  assume "s \<noteq> []"
  then show "(drop (snd (DecodeRuneInString s)) s, s) \<in> measure length"
    using DecodeRuneInString_size[of s] by (cases s) simp_all
qed

declare explode.simps [simp del]

text \<open>
  \<open>strings.Split\<close> cuts at each occurrence of the separator, found from left to right
  with \<open>Index\<close>; an empty separator cuts after each UTF-8 sequence.
\<close>

function Split :: "string \<Rightarrow> string \<Rightarrow> string list" where
  "Split s sep =
     (if sep = [] then explode s
      else if Index s sep = - 1 then [s]
      else take (nat (Index s sep)) s # Split (drop (nat (Index s sep) + length sep) s) sep)"
  by pat_completeness auto
termination
proof (relation "measure (\<lambda>(s, sep). length s)")
  show "wf (measure (\<lambda>(s, sep). length s))" by simp
next
  fix s sep :: string
  assume "sep \<noteq> []" and "Index s sep \<noteq> - 1"
  then have "s \<noteq> []" by (cases s) auto
  with \<open>sep \<noteq> []\<close>
  show "((drop (nat (Index s sep) + length sep) s, sep), (s, sep)) \<in> measure (\<lambda>(s, sep). length s)"
    by simp
qed

declare Split.simps [simp del]

text \<open>\<open>strings.SplitN(s, sep, 2)\<close> with a non-empty separator: cut at the first occurrence only.\<close>

definition SplitN2 :: "string \<Rightarrow> string \<Rightarrow> string list" where
  "SplitN2 s sep =
     (if Index s sep = - 1 then [s]
      else [take (nat (Index s sep)) s, drop (nat (Index s sep) + length sep) s])"

text \<open>
  \<open>strings.ReplaceAll\<close>: the occurrences of \<open>old\<close> are replaced from left to right without
  overlap; an empty \<open>old\<close> matches at the start and after each UTF-8 sequence.
\<close>

function ReplaceAll :: "string \<Rightarrow> string \<Rightarrow> string \<Rightarrow> string" where
  "ReplaceAll s old new =
     (if old = [] then new @ concat (map (\<lambda>e. e @ new) (explode s))
      else if s = [] then []
      else if HasPrefix s old then new @ ReplaceAll (drop (length old) s) old new
      else hd s # ReplaceAll (tl s) old new)"
  by pat_completeness auto
termination
  by (relation "measure (\<lambda>(s, old, new). length s)") auto

declare ReplaceAll.simps [simp del]

section \<open>Issues and format rules\<close>

text \<open>
  \<open>time.Time\<close> is an instant counted from the zero time (January 1 of year 1, 00:00 UTC),
  which is what \<open>IsZero\<close> tests.
\<close>

datatype time = Time int

record Issue =
  Number :: int
  Title :: string
  Body :: string
  State :: string
  Labels :: "string list"
  Assignee :: string
  CreatedAt :: time
  UpdatedAt :: time
  URL :: string

record TaskFormatRules =
  RequiredSections :: "string list"
  MinDescriptionLength :: int
  RequireLabels :: bool
  LabelPrefix :: string

section \<open>The schema checker: \<open>checkFormat\<close>\<close>

definition too_short_msg :: "int \<Rightarrow> string" where
  "too_short_msg n = ''Description too short (minimum '' @ Itoa n @ '' characters)''"

definition missing_section_msg :: "string \<Rightarrow> string" where
  "missing_section_msg section = ''Missing required section: '' @ section"

definition missing_label_msg :: "string \<Rightarrow> string" where
  "missing_label_msg pre = ''Missing priority label (should start with '' @ [CHR 0x27] @ pre @ [CHR 0x27] @ '')''"

text \<open>The loop over \<open>v.rules.RequiredSections\<close>, appending to \<open>violations\<close>.\<close>

fun check_sections :: "case_table \<Rightarrow> string \<Rightarrow> string list \<Rightarrow> string list \<Rightarrow> string list" where
  "check_sections tbl bodyLower [] violations = violations"
| "check_sections tbl bodyLower (section # rest) violations =
     check_sections tbl bodyLower rest
       (if \<not> Contains bodyLower (ToLower tbl section)
        then violations @ [missing_section_msg section]
        else violations)"

text \<open>The loop over \<open>issue.Labels\<close> that sets \<open>hasPriorityLabel\<close> and breaks.\<close>

fun hasPriorityLabel :: "string \<Rightarrow> string list \<Rightarrow> bool" where
  "hasPriorityLabel pre [] = False"
| "hasPriorityLabel pre (label # rest) =
     (if HasPrefix label pre then True else hasPriorityLabel pre rest)"

text \<open>\<open>checkFormat\<close>; \<open>tbl\<close> is the case table that \<open>strings.ToLower\<close> looks up.\<close>

definition checkFormat :: "case_table \<Rightarrow> TaskFormatRules \<Rightarrow> Issue \<Rightarrow> string list" where
  "checkFormat tbl rules issue =
     (let violations = [];
          violations =
            (if int (length (Body issue)) < MinDescriptionLength rules
             then violations @ [too_short_msg (MinDescriptionLength rules)]
             else violations);
          bodyLower = ToLower tbl (Body issue);
          violations = check_sections tbl bodyLower (RequiredSections rules) violations;
          violations =
            (if RequireLabels rules
             then (if \<not> hasPriorityLabel (LabelPrefix rules) (Labels issue)
                   then violations @ [missing_label_msg (LabelPrefix rules)]
                   else violations)
             else violations)
      in violations)"

section \<open>The content merger\<close>

definition robot :: string where
  "robot = [CHR 0xF0, CHR 0x9F, CHR 0xA4, CHR 0x96]"

definition clipboard :: string where
  "clipboard = [CHR 0xF0, CHR 0x9F, CHR 0x93, CHR 0x8B]"

definition agentNoticeStart :: string where
  "agentNoticeStart = ''<!-- '' @ robot @ '' Agent Modified -->''"

definition agentNoticeEnd :: string where
  "agentNoticeEnd = ''<!-- /Agent Modified -->''"

definition removeExistingAgentNotice :: "string \<Rightarrow> string \<Rightarrow> string \<Rightarrow> string" where
  "removeExistingAgentNotice body startMarker endMarker =
     (let startIdx = Index body startMarker in
      if startIdx = - 1 then body
      else
        let endIdx = Index (drop (nat startIdx) body) endMarker in
        if endIdx = - 1 then body
        else
          let endIdx = endIdx + (startIdx + int (length endMarker));
              before = TrimRight (take (nat startIdx) body) ''\<newline>'';
              after = TrimLeft (drop (nat endIdx) body) ''\<newline>''
          in if before = [] then after
             else if after = [] then before
             else before @ ''\<newline>\<newline>'' @ after)"

text \<open>The loop that builds \<open>violationsList\<close>, one \<open>"- %s\n"\<close> per violation.\<close>

fun violationsList_loop :: "string list \<Rightarrow> string \<Rightarrow> string" where
  "violationsList_loop [] violationsList = violationsList"
| "violationsList_loop (violation # rest) violationsList =
     violationsList_loop rest (violationsList @ ''- '' @ violation @ ''\<newline>'')"

text \<open>The \<open>fmt.Sprintf\<close> template of \<open>modificationNotice\<close>, with its five arguments.\<close>

definition modificationNotice :: "string \<Rightarrow> string \<Rightarrow> string \<Rightarrow> string \<Rightarrow> string \<Rightarrow> string" where
  "modificationNotice startMarker violationsList endMarker fixedBody cleanedOriginal =
     startMarker @
     ''\<newline><details>\<newline><summary>'' @ robot @
     '' <strong>Automatically modified by Agent</strong> - Click to see what changed</summary>\<newline>'' @
     ''\<newline>This issue was automatically updated to comply with format guidelines.\<newline>'' @
     ''\<newline>**Issues fixed:**\<newline>'' @
     violationsList @
     ''\<newline></details>\<newline>'' @
     endMarker @
     ''\<newline>\<newline>---\<newline>\<newline>'' @
     fixedBody @
     ''\<newline>\<newline>---\<newline>\<newline><details>\<newline><summary>'' @ clipboard @
     '' Original content (preserved for reference)</summary>\<newline>\<newline>'' @
     cleanedOriginal @
     ''\<newline>\<newline></details>\<newline>''"

definition preserveOriginalWithModifications :: "string \<Rightarrow> string \<Rightarrow> string list \<Rightarrow> string" where
  "preserveOriginalWithModifications originalBody fixedBody violations =
     (let cleanedOriginal = removeExistingAgentNotice originalBody agentNoticeStart agentNoticeEnd;
          violationsList = violationsList_loop violations []
      in modificationNotice agentNoticeStart violationsList agentNoticeEnd fixedBody cleanedOriginal)"

section \<open>The external collaborators\<close>

text \<open>
  The code reaches GitHub through \<open>github.UnifiedClient\<close> and the language model through
  \<open>llm.Client\<close>. Both are outside the program; here they are an issue store in single
  repository mode (the owner and repository arguments are passed and ignored, as
  \<open>UnifiedClientWrapper\<close> does) and a completion function. Every call is appended to
  \<open>call_log\<close> with its outcome, so that which calls a function makes, and in which order,
  can be stated. Whether a call fails, and what the model answers, is decided by the
  environment \<open>env\<close>, about which nothing is assumed.
\<close>

datatype call =
    ListIssuesCall string
  | GetIssueCall string string int
  | UpdateIssueCall string string int "string option" "string option"
  | AddCommentCall string string int string
  | AddLabelCall string string int string
  | PromptCall string

record world =
  store_issues :: "Issue list"
  store_comments :: "(int \<times> string) list"
  call_log :: "(call \<times> string option) list"
  stdout_log :: "string list"

text \<open>
  A \<open>float64\<close>: a finite value, given by the real number it stands for, an infinity or
  NaN.
\<close>

datatype float64 =
    Finite real
  | PlusInf
  | MinusInf
  | NaN

text \<open>A value of Go's \<open>interface{}\<close>, as far as the maps of the program hold them.\<close>

datatype any =
    AnyInt int
  | AnyFloat float64
  | AnyString string
  | AnyBool bool
  | AnyStrings "string list"
  | AnyList "any list"
  | AnyMap "(string \<times> any) list"

text \<open>\<open>prompts.Loader\<close>: its two methods the program calls.\<close>

record Loader =
  HasTemplate :: "string \<Rightarrow> bool"
  Render :: "string \<Rightarrow> (string \<rightharpoonup> any) \<Rightarrow> string + string"

text \<open>
  The environment also holds what the Go implementation fixes outside this repository:
  the case table of package \<open>unicode\<close> (\<open>lower_table\<close>) and the result of converting to
  \<open>int\<close> a \<open>float64\<close> that \<open>int\<close> cannot represent (\<open>float_overflow\<close>), which the language
  leaves to the implementation.
\<close>

record env =
  fails :: "world \<Rightarrow> call \<Rightarrow> string option"
  completion :: "world \<Rightarrow> string \<Rightarrow> string"
  prompts_dir_loader :: "Loader option"
  format_date :: "time \<Rightarrow> string"
  format_rate :: "int \<Rightarrow> int \<Rightarrow> string"
  lower_table :: case_table
  float_overflow :: "float64 \<Rightarrow> int"

definition record_call :: "call \<Rightarrow> string option \<Rightarrow> world \<Rightarrow> world" where
  "record_call c r w = w\<lparr>call_log := call_log w @ [(c, r)]\<rparr>"

definition Printf :: "string \<Rightarrow> world \<Rightarrow> world" where
  "Printf line w = w\<lparr>stdout_log := stdout_log w @ [line]\<rparr>"

definition not_found :: "int \<Rightarrow> string" where
  "not_found number = ''issue #'' @ Itoa number @ '' not found''"

definition ListIssues :: "env \<Rightarrow> string \<Rightarrow> world \<Rightarrow> (string + Issue list) \<times> world" where
  "ListIssues E state w =
     (let c = ListIssuesCall state in
      case fails E w c of
        Some err \<Rightarrow> (Inl err, record_call c (Some err) w)
      | None \<Rightarrow>
          (Inr (filter (\<lambda>i. state = ''all'' \<or> State i = state) (store_issues w)),
           record_call c None w))"

definition GetIssue :: "env \<Rightarrow> string \<Rightarrow> string \<Rightarrow> int \<Rightarrow> world \<Rightarrow> (string + Issue) \<times> world" where
  "GetIssue E owner repo number w =
     (let c = GetIssueCall owner repo number in
      case fails E w c of
        Some err \<Rightarrow> (Inl err, record_call c (Some err) w)
      | None \<Rightarrow>
          (case find (\<lambda>i. Number i = number) (store_issues w) of
             None \<Rightarrow> (Inl (not_found number), record_call c (Some (not_found number)) w)
           | Some i \<Rightarrow> (Inr i, record_call c None w)))"

definition edit_issue :: "string option \<Rightarrow> string option \<Rightarrow> Issue \<Rightarrow> Issue" where
  "edit_issue title body i =
     (let i = (case title of None \<Rightarrow> i | Some t \<Rightarrow> i\<lparr>Title := t\<rparr>)
      in (case body of None \<Rightarrow> i | Some b \<Rightarrow> i\<lparr>Body := b\<rparr>))"

definition UpdateIssue ::
  "env \<Rightarrow> string \<Rightarrow> string \<Rightarrow> int \<Rightarrow> string option \<Rightarrow> string option \<Rightarrow> world \<Rightarrow> string option \<times> world" where
  "UpdateIssue E owner repo number title body w =
     (let c = UpdateIssueCall owner repo number title body in
      case fails E w c of
        Some err \<Rightarrow> (Some err, record_call c (Some err) w)
      | None \<Rightarrow>
          (if number \<in> Number ` set (store_issues w)
           then (None,
                 record_call c None
                   (w\<lparr>store_issues :=
                        map (\<lambda>i. if Number i = number then edit_issue title body i else i)
                          (store_issues w)\<rparr>))
           else (Some (not_found number), record_call c (Some (not_found number)) w)))"

definition AddComment ::
  "env \<Rightarrow> string \<Rightarrow> string \<Rightarrow> int \<Rightarrow> string \<Rightarrow> world \<Rightarrow> string option \<times> world" where
  "AddComment E owner repo number comment w =
     (let c = AddCommentCall owner repo number comment in
      case fails E w c of
        Some err \<Rightarrow> (Some err, record_call c (Some err) w)
      | None \<Rightarrow>
          (if number \<in> Number ` set (store_issues w)
           then (None,
                 record_call c None (w\<lparr>store_comments := store_comments w @ [(number, comment)]\<rparr>))
           else (Some (not_found number), record_call c (Some (not_found number)) w)))"

text \<open>
  \<open>AddLabel\<close> leaves an issue that has the label as it is and appends the label otherwise,
  as \<open>Client.AddLabel\<close> does.
\<close>

definition add_label :: "string \<Rightarrow> Issue \<Rightarrow> Issue" where
  "add_label label i = (if label \<in> set (Labels i) then i else i\<lparr>Labels := Labels i @ [label]\<rparr>)"

definition AddLabel ::
  "env \<Rightarrow> string \<Rightarrow> string \<Rightarrow> int \<Rightarrow> string \<Rightarrow> world \<Rightarrow> string option \<times> world" where
  "AddLabel E owner repo number label w =
     (let c = AddLabelCall owner repo number label in
      case fails E w c of
        Some err \<Rightarrow> (Some err, record_call c (Some err) w)
      | None \<Rightarrow>
          (if number \<in> Number ` set (store_issues w)
           then (None,
                 record_call c None
                   (w\<lparr>store_issues :=
                        map (\<lambda>i. if Number i = number then add_label label i else i)
                          (store_issues w)\<rparr>))
           else (Some (not_found number), record_call c (Some (not_found number)) w)))"

definition Prompt :: "env \<Rightarrow> string \<Rightarrow> world \<Rightarrow> (string + string) \<times> world" where
  "Prompt E prompt w =
     (let c = PromptCall prompt in
      case fails E w c of
        Some err \<Rightarrow> (Inl err, record_call c (Some err) w)
      | None \<Rightarrow> (Inr (completion E w prompt), record_call c None w))"

text \<open>\<open>extractRepoFromURL\<close> of package \<open>plugins\<close> (\<open>plugins/executor.go\<close>).\<close>

definition extractRepoFromURL :: "string \<Rightarrow> string \<times> string" where
  "extractRepoFromURL url =
     (let parts = Split url ''/'' in
      if length parts \<ge> 5 then (parts ! 3, parts ! 4) else ([], []))"

text \<open>
  \<open>extractRepoFromURL\<close> of package \<open>agent\<close> (\<open>agent/monitor.go\<close>), which is the one
  \<open>ValidateAndFix\<close> calls: the two parts after the first part \<open>github.com\<close> that has two
  parts after it. The loop runs over the parts from \<open>i\<close> on; \<open>i + 2 < len(parts)\<close> says
  that two parts follow.
\<close>

fun agent_extractRepoFromURL_loop :: "string list \<Rightarrow> string \<times> string" where
  "agent_extractRepoFromURL_loop [] = ([], [])"
| "agent_extractRepoFromURL_loop (part # rest) =
     (if part = ''github.com'' \<and> 2 \<le> length rest then (rest ! 0, rest ! 1)
      else agent_extractRepoFromURL_loop rest)"

definition agent_extractRepoFromURL :: "string \<Rightarrow> string \<times> string" where
  "agent_extractRepoFromURL url =
     (let parts = Split url ''/'' in
      if length parts \<ge> 4 then agent_extractRepoFromURL_loop parts else ([], []))"

section \<open>The validation workflow\<close>

record GuidelinesFormatRules =
  gRequiredSections :: "string list"
  gMinDescriptionLength :: int
  gRequireLabels :: bool
  gLabelPrefix :: string

record Guidelines =
  RawContent :: string
  Instructions :: string
  FormatRules :: GuidelinesFormatRules

record Validator =
  rules :: TaskFormatRules
  guidelines :: "Guidelines option"
  promptLoader :: "Loader option"

text \<open>
  \<open>NewValidator\<close>; the loader it reads from the \<open>prompts\<close> directory is the environment's
  \<open>prompts_dir_loader\<close> (\<open>None\<close> when loading fails).
\<close>

definition NewValidator :: "env \<Rightarrow> TaskFormatRules \<Rightarrow> Guidelines option \<Rightarrow> Validator" where
  "NewValidator E rules0 g =
     (let v = \<lparr>rules = rules0, guidelines = g, promptLoader = prompts_dir_loader E\<rparr> in
      case g of
        None \<Rightarrow> v
      | Some gl \<Rightarrow>
          (let fr = FormatRules gl;
               r = (rules v)\<lparr>RequiredSections := gRequiredSections fr\<rparr>;
               r = (if length (RequiredSections r) = 0
                    then r\<lparr>RequiredSections := RequiredSections rules0\<rparr> else r);
               r = (if gMinDescriptionLength fr > 0
                    then r\<lparr>MinDescriptionLength := gMinDescriptionLength fr\<rparr> else r);
               r = r\<lparr>RequireLabels := (gRequireLabels fr \<or> RequireLabels rules0)\<rparr>;
               r = (if gLabelPrefix fr \<noteq> [] then r\<lparr>LabelPrefix := gLabelPrefix fr\<rparr> else r)
           in v\<lparr>rules := r\<rparr>))"

definition validator_template_data ::
  "Validator \<Rightarrow> Issue \<Rightarrow> string list \<Rightarrow> (string \<rightharpoonup> any)" where
  "validator_template_data v issue violations =
     (let guidelinesText = (case guidelines v of None \<Rightarrow> [] | Some g \<Rightarrow> RawContent g);
          instructionsText = (case guidelines v of None \<Rightarrow> [] | Some g \<Rightarrow> Instructions g)
      in [''Title'' \<mapsto> AnyString (Title issue),
          ''Body'' \<mapsto> AnyString (Body issue),
          ''Violations'' \<mapsto> AnyStrings violations,
          ''MinDescriptionLength'' \<mapsto> AnyInt (MinDescriptionLength (rules v)),
          ''RequiredSections'' \<mapsto> AnyString (Join (RequiredSections (rules v)) '', ''),
          ''LabelPrefix'' \<mapsto> AnyString (LabelPrefix (rules v)),
          ''Guidelines'' \<mapsto> AnyString guidelinesText,
          ''Instructions'' \<mapsto> AnyString instructionsText])"

definition validator_fallback_prompt :: "Validator \<Rightarrow> Issue \<Rightarrow> string list \<Rightarrow> string" where
  "validator_fallback_prompt v issue violations =
     (let guidelinesText =
            (case guidelines v of
               None \<Rightarrow> []
             | Some g \<Rightarrow>
                 (if Instructions g \<noteq> []
                  then ''\<newline>\<newline>Instructions:\<newline>'' @ Instructions g
                  else ''\<newline>\<newline>Project Guidelines:\<newline>'' @ RawContent g))
      in ''You are a task format enforcer for a GitHub project. Fix the following task to comply with the format guidelines.'' @
         guidelinesText @
         ''\<newline>\<newline>Current task:\<newline>Title: '' @ Title issue @
         ''\<newline>Body: '' @ Body issue @
         ''\<newline>\<newline>Format violations:\<newline>'' @ Join violations ''\<newline>'' @
         ''\<newline>\<newline>Required format:\<newline>- Description: At least '' @
         Itoa (MinDescriptionLength (rules v)) @
         '' characters\<newline>- Required sections: '' @ Join (RequiredSections (rules v)) '', '' @
         ''\<newline>- Priority label: Must have a label starting with '' @ [CHR 0x22] @ LabelPrefix (rules v) @ [CHR 0x22] @
         ''\<newline>\<newline>Please rewrite the task body to fix all violations while preserving the original intent and information. Return ONLY the fixed body text, no explanations.'')"

text \<open>Drops the first and the last line of a completion that opens with a code fence.\<close>

definition strip_fence :: "string \<Rightarrow> string" where
  "strip_fence s =
     (let lines = Split s ''\<newline>'' in
      if length lines > 2 then Join (take (length lines - 2) (drop 1 lines)) ''\<newline>'' else s)"

definition fixWithLLM ::
  "env \<Rightarrow> Validator \<Rightarrow> Issue \<Rightarrow> string list \<Rightarrow> world \<Rightarrow> (string + string) \<times> world" where
  "fixWithLLM E v issue violations w =
     (let prompt =
            (case promptLoader v of
               None \<Rightarrow> []
             | Some l \<Rightarrow>
                 (if HasTemplate l ''validator''
                  then (case Render l ''validator'' (validator_template_data v issue violations) of
                          Inr rendered \<Rightarrow> rendered
                        | Inl err \<Rightarrow> [])
                  else []));
          prompt = (if prompt = [] then validator_fallback_prompt v issue violations else prompt)
      in case Prompt E prompt w of
           (Inl err, w1) \<Rightarrow> (Inl err, w1)
         | (Inr fixedBody, w1) \<Rightarrow>
             (let fixedBody = TrimSpace fixedBody;
                  fixedBody = (if HasPrefix fixedBody ''```'' then strip_fence fixedBody else fixedBody)
              in (Inr fixedBody, w1)))"

definition fixed_comment :: "string list \<Rightarrow> string" where
  "fixed_comment violations =
     robot @ '' **Agent**: I'' @ [CHR 0x27] @
     ''ve updated this task to follow our format guidelines.\<newline>\<newline>Issues fixed:\<newline>'' @
     Join violations ''\<newline>- ''"

text \<open>
  \<open>ValidateAndFix\<close> returns \<open>(bool, string, error)\<close>; the error is \<open>None\<close> for \<open>nil\<close> and its
  message otherwise.
\<close>

definition ValidateAndFix ::
  "env \<Rightarrow> Validator \<Rightarrow> Issue \<Rightarrow> world \<Rightarrow> (bool \<times> string \<times> string option) \<times> world" where
  "ValidateAndFix E v issue w =
     (let violations = checkFormat (lower_table E) (rules v) issue in
      if length violations = 0 then ((True, [], None), w)
      else
        case fixWithLLM E v issue violations w of
          (Inl err, w1) \<Rightarrow> ((False, [], Some (''failed to fix with LLM: '' @ err)), w1)
        | (Inr fixedBody, w1) \<Rightarrow>
            (let updatedBody = preserveOriginalWithModifications (Body issue) fixedBody violations;
                 (owner, repo) = agent_extractRepoFromURL (URL issue)
             in case UpdateIssue E owner repo (Number issue) None (Some updatedBody) w1 of
                  (Some err, w2) \<Rightarrow> ((False, [], Some (''failed to update issue: '' @ err)), w2)
                | (None, w2) \<Rightarrow>
                    (let comment = fixed_comment violations in
                     case AddComment E owner repo (Number issue) comment w2 of
                       (Some err, w3) \<Rightarrow>
                         ((False, comment, None),
                          Printf (''Warning: failed to add comment: '' @ err @ ''\<newline>'') w3)
                     | (None, w3) \<Rightarrow> ((False, comment, None), w3))))"

section \<open>The plugin executor\<close>

text \<open>
  \<open>PluginAgent\<close> with the fields the executor reads, and the result of an executor:
  the map it returns, the error it returns, or a run-time panic.
\<close>

record PluginAgent =
  Name :: string
  Type :: string
  Actions :: "string list"
  Config :: "string \<rightharpoonup> any"
  PromptPath :: string

record PluginExecutor =
  executorPromptLoader :: "Loader option"

datatype outcome =
    Returned "string \<rightharpoonup> any"
  | Failed string
  | Panicked string

text \<open>
  The conversion \<open>int(f)\<close> of a \<open>float64\<close> drops the fraction. When the result does not
  fit the 64 bits of \<open>int\<close>, and for an infinity and NaN, the value is the
  implementation's: \<open>beyond f\<close>.
\<close>

definition int_of_float :: "(float64 \<Rightarrow> int) \<Rightarrow> float64 \<Rightarrow> int" where
  "int_of_float beyond f =
     (case f of
        Finite x \<Rightarrow>
          (let t = (if x \<ge> 0 then \<lfloor>x\<rfloor> else \<lceil>x\<rceil>) in
           if - (2 ^ 63) \<le> t \<and> t < 2 ^ 63 then t else beyond f)
      | _ \<Rightarrow> beyond f)"

subsection \<open>\<open>executeValidator\<close>\<close>

text \<open>The nested type assertions that read the requested issue number; \<open>ok\<close> is the second component.\<close>

definition validator_issue_param :: "(float64 \<Rightarrow> int) \<Rightarrow> (string \<rightharpoonup> any) \<Rightarrow> int \<times> bool" where
  "validator_issue_param beyond params =
     (case params ''issue_number'' of
        Some (AnyInt n) \<Rightarrow> (n, True)
      | _ \<Rightarrow>
          (case params ''issue'' of
             Some (AnyInt n) \<Rightarrow> (n, True)
           | _ \<Rightarrow>
               (case params ''issue_number'' of
                  Some (AnyFloat f) \<Rightarrow> (int_of_float beyond f, True)
                | _ \<Rightarrow>
                    (case params ''issue'' of
                       Some (AnyFloat f) \<Rightarrow> (int_of_float beyond f, True)
                     | _ \<Rightarrow> (0, False)))))"

text \<open>The loop over \<open>issue.Labels\<close> that looks for the label \<open>agent-validator\<close> and breaks.\<close>

fun hasValidatorLabel :: "string list \<Rightarrow> bool" where
  "hasValidatorLabel [] = False"
| "hasValidatorLabel (label # rest) =
     (if label = ''agent-validator'' then True else hasValidatorLabel rest)"

fun issuesToValidate_loop :: "Issue list \<Rightarrow> Issue list \<Rightarrow> Issue list" where
  "issuesToValidate_loop [] issuesToValidate = issuesToValidate"
| "issuesToValidate_loop (issue # rest) issuesToValidate =
     issuesToValidate_loop rest
       (if \<not> hasValidatorLabel (Labels issue) then issuesToValidate @ [issue]
        else issuesToValidate)"

record validate_acc =
  validatedCount :: int
  fixedCount :: int
  errors :: "string list"
  validatedIssues :: "any list"

definition label_warning :: "int \<Rightarrow> string \<Rightarrow> string" where
  "label_warning number err =
     ''Warning: failed to add '' @ [CHR 0x27] @ ''agent-validator'' @ [CHR 0x27] @
     '' label to issue #'' @ Itoa number @ '': '' @ err @ ''\<newline>''"

text \<open>One iteration of the loop over \<open>issuesToValidate\<close>.\<close>

definition validate_one ::
  "env \<Rightarrow> Validator \<Rightarrow> Issue \<Rightarrow> validate_acc \<Rightarrow> world \<Rightarrow> validate_acc \<times> world" where
  "validate_one E v issue acc w =
     (case ValidateAndFix E v issue w of
        ((valid, comment, Some err), w1) \<Rightarrow>
          (acc\<lparr>errors := errors acc @ [''issue #'' @ Itoa (Number issue) @ '': '' @ err]\<rparr>, w1)
      | ((valid, comment, None), w1) \<Rightarrow>
          (let (owner, repo) = extractRepoFromURL (URL issue);
               w2 = (case AddLabel E owner repo (Number issue) ''agent-validator'' w1 of
                       (Some err, w') \<Rightarrow> Printf (label_warning (Number issue) err) w'
                     | (None, w') \<Rightarrow> w');
               acc = acc\<lparr>validatedCount := validatedCount acc + 1\<rparr>;
               acc = (if \<not> valid then acc\<lparr>fixedCount := fixedCount acc + 1\<rparr> else acc);
               acc = acc\<lparr>validatedIssues := validatedIssues acc @
                        [AnyMap [(''number'', AnyInt (Number issue)),
                                 (''title'', AnyString (Title issue)),
                                 (''validated'', AnyBool valid),
                                 (''fixed'', AnyBool (\<not> valid)),
                                 (''comment'', AnyString comment)]]\<rparr>
           in (acc, w2)))"

fun validate_loop ::
  "env \<Rightarrow> Validator \<Rightarrow> Issue list \<Rightarrow> validate_acc \<Rightarrow> world \<Rightarrow> validate_acc \<times> world" where
  "validate_loop E v [] acc w = (acc, w)"
| "validate_loop E v (issue # rest) acc w =
     (case validate_one E v issue acc w of (acc1, w1) \<Rightarrow> validate_loop E v rest acc1 w1)"

definition validator_message :: "int \<Rightarrow> int \<Rightarrow> int \<Rightarrow> string" where
  "validator_message validated fixed allCount =
     ''Validated '' @ Itoa validated @ '' issues ('' @ Itoa fixed @ '' fixed, '' @
     Itoa (validated - fixed) @ '' already valid), '' @ Itoa (allCount - validated) @
     '' skipped (already validated)''"

definition default_rules :: TaskFormatRules where
  "default_rules =
     \<lparr>RequiredSections = [''Description'', ''Acceptance Criteria''],
      MinDescriptionLength = 50,
      RequireLabels = True,
      LabelPrefix = ''priority:''\<rparr>"

text \<open>
  The part of \<open>executeValidator\<close> from the listing of the open issues on, given the issue
  fetched for an issue number in \<open>params\<close>, if any.
\<close>

definition validate_all ::
  "env \<Rightarrow> PluginAgent \<Rightarrow> Issue option \<Rightarrow> world \<Rightarrow> outcome \<times> world" where
  "validate_all E pluginAgent specificIssue w =
     (let validatorInstance = NewValidator E default_rules None in
      case ListIssues E ''open'' w of
        (Inl err, w1) \<Rightarrow> (Failed (''failed to list issues: '' @ err), w1)
      | (Inr allIssues, w1) \<Rightarrow>
          (let issuesToValidate = issuesToValidate_loop allIssues [] in
           if length issuesToValidate = 0 then
             (let result =
                    [''agent'' \<mapsto> AnyString (Name pluginAgent),
                     ''status'' \<mapsto> AnyString ''completed'',
                     ''total_issues'' \<mapsto> AnyInt (int (length allIssues)),
                     ''validated_count'' \<mapsto> AnyInt 0,
                     ''skipped_count'' \<mapsto> AnyInt (int (length allIssues)),
                     ''message'' \<mapsto> AnyString
                        (''All issues already validated (have '' @ [CHR 0x27] @
                         ''agent-validator'' @ [CHR 0x27] @ '' label)'')];
                  result =
                    (case specificIssue of
                       None \<Rightarrow> result
                     | Some si \<Rightarrow>
                         result(''issue'' \<mapsto> AnyInt (Number si), ''title'' \<mapsto> AnyString (Title si)))
              in (Returned result, w1))
           else
             (case validate_loop E validatorInstance issuesToValidate
                     \<lparr>validatedCount = 0, fixedCount = 0, errors = [], validatedIssues = []\<rparr> w1 of
                (acc, w2) \<Rightarrow>
                  (let result =
                         [''agent'' \<mapsto> AnyString (Name pluginAgent),
                          ''status'' \<mapsto> AnyString ''completed'',
                          ''total_issues'' \<mapsto> AnyInt (int (length allIssues)),
                          ''validated_count'' \<mapsto> AnyInt (validatedCount acc),
                          ''fixed_count'' \<mapsto> AnyInt (fixedCount acc),
                          ''skipped_count'' \<mapsto> AnyInt (int (length allIssues) - validatedCount acc),
                          ''validated_issues'' \<mapsto> AnyList (validatedIssues acc),
                          ''message'' \<mapsto> AnyString
                             (validator_message (validatedCount acc) (fixedCount acc)
                                (int (length allIssues)))];
                       result =
                         (case specificIssue of
                            None \<Rightarrow> result
                          | Some si \<Rightarrow>
                              result(''requested_issue'' \<mapsto> AnyInt (Number si),
                                     ''requested_title'' \<mapsto> AnyString (Title si)));
                       result =
                         (if length (errors acc) > 0
                          then result(''errors'' \<mapsto> AnyStrings (errors acc),
                                      ''error_count'' \<mapsto> AnyInt (int (length (errors acc))))
                          else result)
                   in (Returned result, w2)))))"

definition executeValidator ::
  "env \<Rightarrow> PluginAgent \<Rightarrow> (string \<rightharpoonup> any) \<Rightarrow> world \<Rightarrow> outcome \<times> world" where
  "executeValidator E pluginAgent params w =
     (case validator_issue_param (float_overflow E) params of
        (issueNum, ok) \<Rightarrow>
          (if ok \<and> issueNum > 0 then
             (case GetIssue E [] [] issueNum w of
                (Inl err, w1) \<Rightarrow> (Failed (''failed to get issue: '' @ err), w1)
              | (Inr issue, w1) \<Rightarrow> validate_all E pluginAgent (Some issue) w1)
           else validate_all E pluginAgent None w))"

subsection \<open>\<open>extractIssueNumber\<close>\<close>

definition extractIssueNumber :: "(float64 \<Rightarrow> int) \<Rightarrow> (string \<rightharpoonup> any) \<Rightarrow> int \<times> bool" where
  "extractIssueNumber beyond params =
     (case (case params ''issue_number'' of Some (AnyInt n) \<Rightarrow> if n > 0 then Some n else None
            | _ \<Rightarrow> None) of
        Some n \<Rightarrow> (n, True)
      | None \<Rightarrow>
     (case (case params ''issue'' of Some (AnyInt n) \<Rightarrow> if n > 0 then Some n else None
            | _ \<Rightarrow> None) of
        Some n \<Rightarrow> (n, True)
      | None \<Rightarrow>
     (case (case params ''issue_number'' of
              Some (AnyFloat f) \<Rightarrow>
                if int_of_float beyond f > 0 then Some (int_of_float beyond f) else None
            | _ \<Rightarrow> None) of
        Some n \<Rightarrow> (n, True)
      | None \<Rightarrow>
     (case (case params ''issue'' of
              Some (AnyFloat f) \<Rightarrow>
                if int_of_float beyond f > 0 then Some (int_of_float beyond f) else None
            | _ \<Rightarrow> None) of
        Some n \<Rightarrow> (n, True)
      | None \<Rightarrow> (0, False)))))"

subsection \<open>\<open>executeLLMAction\<close>\<close>

definition extractTemplateName :: "case_table \<Rightarrow> PluginAgent \<Rightarrow> string" where
  "extractTemplateName tbl pluginAgent =
     (if PromptPath pluginAgent = [] then
        (let name = ToLower tbl (Name pluginAgent);
             name = ReplaceAll name '' '' ''-'';
             name = ReplaceAll name ''task-'' [];
             name = ReplaceAll name ''executive-'' [];
             name = ReplaceAll name ''priority-'' [];
             name = ReplaceAll name ''progress-'' []
         in name)
      else
        (let path = PromptPath pluginAgent;
             path = TrimSuffix path ''.md'';
             path = TrimPrefix path ''prompts/'';
             path = TrimPrefix path ''.github/agents/custom/prompts/'';
             path = TrimPrefix path ''.github/agents/core/prompts/'';
             path = (if Contains path ''/'' then last (Split path ''/'') else path)
         in path))"

definition IsZero :: "time \<Rightarrow> bool" where
  "IsZero t = (t = Time 0)"

definition issue_data :: "env \<Rightarrow> Issue \<Rightarrow> (string \<rightharpoonup> any)" where
  "issue_data E issue =
     (let data = [''Title'' \<mapsto> AnyString (Title issue),
                  ''Body'' \<mapsto> AnyString (Body issue),
                  ''Labels'' \<mapsto> AnyString (Join (Labels issue) '', ''),
                  ''State'' \<mapsto> AnyString (State issue),
                  ''Assignee'' \<mapsto> AnyString (Assignee issue)];
          data = (if Number issue > 0 then data(''Number'' \<mapsto> AnyInt (Number issue)) else data);
          data = (if \<not> IsZero (CreatedAt issue)
                  then data(''CreatedAt'' \<mapsto> AnyString (format_date E (CreatedAt issue))) else data);
          data = (if \<not> IsZero (UpdatedAt issue)
                  then data(''UpdatedAt'' \<mapsto> AnyString (format_date E (UpdatedAt issue))) else data)
      in data)"

text \<open>
  \<open>gatherProjectStats\<close>. The type assertion \<open>stats["TotalOpenTasks"].(int)\<close> panics when
  the listing of the open issues failed and that of the closed ones did not. The rendering
  of the completion rate (a \<open>float64\<close> printed with \<open>%.1f\<close>) is the environment's
  \<open>format_rate\<close> of the two counts.
\<close>

definition gatherProjectStats :: "env \<Rightarrow> world \<Rightarrow> (string + (string \<rightharpoonup> any)) \<times> world" where
  "gatherProjectStats E w =
     (case ListIssues E ''open'' w of
        (openRes, w1) \<Rightarrow>
          (let openIssues = (case openRes of Inr l \<Rightarrow> l | Inl err \<Rightarrow> []);
               stats =
                 (case openRes of
                    Inl err \<Rightarrow> Map.empty
                  | Inr l \<Rightarrow>
                      [''TotalOpenTasks'' \<mapsto> AnyInt (int (length l)),
                       ''InProgressTasks'' \<mapsto> AnyInt (int (length (filter
                          (\<lambda>label. Contains (ToLower (lower_table E) label) ''in progress'' \<or>
                                    Contains (ToLower (lower_table E) label) ''in-progress'')
                          (concat (map Labels l))))),
                       ''BlockedTasks'' \<mapsto> AnyInt (int (length (filter
                          (\<lambda>label. Contains (ToLower (lower_table E) label) ''blocked'' \<or>
                                    Contains (ToLower (lower_table E) label) ''blocker'')
                          (concat (map Labels l)))))]);
               riskCount = int (length (filter
                  (\<lambda>issue. list_ex
                     (\<lambda>label. Contains (ToLower (lower_table E) label) ''risk'' \<or>
                               Contains (ToLower (lower_table E) label) ''blocker'' \<or>
                               Contains (ToLower (lower_table E) label) ''critical'')
                     (Labels issue))
                  openIssues))
           in case ListIssues E ''closed'' w1 of
                (Inl err, w2) \<Rightarrow> (Inr (stats(''RiskCount'' \<mapsto> AnyInt riskCount)), w2)
              | (Inr closedIssues, w2) \<Rightarrow>
                  (let stats = stats(''CompletedTasks'' \<mapsto> AnyInt (int (length closedIssues))) in
                   case stats ''TotalOpenTasks'' of
                     Some (AnyInt n) \<Rightarrow>
                       (let allCount = n + int (length closedIssues);
                            stats =
                              (if allCount > 0
                               then stats(''CompletionRate'' \<mapsto>
                                      AnyString (format_rate E (int (length closedIssues)) allCount))
                               else stats)
                        in (Inr (stats(''RiskCount'' \<mapsto> AnyInt riskCount)), w2))
                   | _ \<Rightarrow>
                       (Inl ''interface conversion: interface {} is nil, not int'', w2))))"

definition generic_fallback_prompt :: "Issue \<Rightarrow> string" where
  "generic_fallback_prompt issue =
     ''You are a helpful assistant. Based on the following GitHub issue, provide a concise summary.'' @
     ''\<newline>\<newline>Title: '' @ Title issue @
     ''\<newline>Body: '' @ Body issue @
     ''\<newline>Labels: '' @ Join (Labels issue) '', '' @
     ''\<newline>State: '' @ State issue @
     ''\<newline>Assignee: '' @ Assignee issue @
     ''\<newline>\<newline>Provide a clear, concise summary.''"

lemma ReplaceAll_length_le:
  "length new \<le> length old \<Longrightarrow> old \<noteq> [] \<Longrightarrow> length (ReplaceAll s old new) \<le> length s"
proof (induction s old new rule: ReplaceAll.induct)
  case (1 s old new)
  show ?case
  proof (cases "s = []")
    case True
    with "1.prems" show ?thesis by (subst ReplaceAll.simps) simp
  next
    case False
    note ne = this
    show ?thesis
    proof (cases "HasPrefix s old")
      case True
      then have l: "length old \<le> length s" by (simp add: HasPrefix_def)
      from "1.IH"(1)[OF "1.prems"(2) ne True "1.prems"]
      have "length (ReplaceAll (drop (length old) s) old new) \<le> length s - length old" by simp
      with True ne "1.prems" l show ?thesis by (subst ReplaceAll.simps) simp
    next
      case False
      from "1.IH"(2)[OF "1.prems"(2) ne False "1.prems"]
      have "length (ReplaceAll (tl s) old new) \<le> length s - 1" by simp
      with False ne "1.prems" show ?thesis
        by (subst ReplaceAll.simps) (cases s; simp)
    qed
  qed
qed

lemma ReplaceAll_length_less:
  "length new < length old \<Longrightarrow> Contains s old \<Longrightarrow> length (ReplaceAll s old new) < length s"
proof (induction s old new rule: ReplaceAll.induct)
  case (1 s old new)
  from "1.prems" have on: "old \<noteq> []" by auto
  from "1.prems" on have ne: "s \<noteq> []" by (cases s) (auto simp: Contains_def)
  show ?case
  proof (cases "HasPrefix s old")
    case True
    then have l: "length old \<le> length s" by (simp add: HasPrefix_def)
    have "length (ReplaceAll (drop (length old) s) old new) \<le> length s - length old"
      using ReplaceAll_length_le[of new old "drop (length old) s"] "1.prems" on by simp
    with True ne "1.prems" l on show ?thesis by (subst ReplaceAll.simps) simp
  next
    case False
    obtain c cs where s: "s = c # cs" using ne by (cases s) auto
    from "1.prems"(2) False s have "Contains cs old"
      by (auto simp: Contains_def Let_def split: if_splits)
    then have "Contains (tl s) old" using s by simp
    from "1.IH"(2)[OF on ne False "1.prems"(1) this]
    have "length (ReplaceAll (tl s) old new) < length (tl s)" .
    with False on s show ?thesis by (subst ReplaceAll.simps) simp
  qed
qed

text \<open>The loop \<open>for strings.Contains(summary, "\n\n\n") { ... }\<close>.\<close>

function collapse_newlines :: "string \<Rightarrow> string" where
  "collapse_newlines s =
     (if Contains s ''\<newline>\<newline>\<newline>''
      then collapse_newlines (ReplaceAll s ''\<newline>\<newline>\<newline>'' ''\<newline>\<newline>'')
      else s)"
  by pat_completeness auto
termination
  by (relation "measure length") (auto intro: ReplaceAll_length_less)

declare collapse_newlines.simps [simp del]

definition clean_summary :: "string \<Rightarrow> string" where
  "clean_summary raw =
     (let summary = TrimSpace raw;
          summary =
            (if HasPrefix summary ''```markdown'' then strip_fence summary
             else if HasPrefix summary ''```'' then strip_fence summary
             else summary);
          summary = ReplaceAll summary [CHR 0x0D, CHR 0x0A] ''\<newline>'';
          summary = TrimSpace summary;
          summary =
            (if HasPrefix summary ''Summary:'' \<or> HasPrefix summary ''summary:''
             then (let parts = SplitN2 summary '':'' in
                   if length parts > 1
                   then ''## Task Summary\<newline>\<newline>**Objective**: '' @ TrimSpace (parts ! 1)
                   else summary)
             else summary);
          summary =
            (if \<not> HasPrefix summary ''## Task Summary''
             then (if Contains summary ''Objective'' \<or> Contains summary ''objective''
                   then ''## Task Summary\<newline>\<newline>'' @ summary
                   else summary)
             else summary);
          summary = ReplaceAll summary ''\<newline>##'' ''\<newline>\<newline>##'';
          summary = ReplaceAll summary ''\<newline>**'' ''\<newline>\<newline>**'';
          summary = ReplaceAll summary ''\<newline>\<newline>\<newline>**'' ''\<newline>\<newline>**'';
          summary = collapse_newlines summary
      in TrimSpace summary)"

text \<open>
  \<open>executeLLMAction\<close>, for the issue its one caller passes (never \<open>nil\<close>). It returns the
  map of the action, or the panic of \<open>gatherProjectStats\<close>.
\<close>

definition executeLLMAction ::
  "env \<Rightarrow> PluginExecutor \<Rightarrow> PluginAgent \<Rightarrow> Issue \<Rightarrow> (string \<rightharpoonup> any) \<Rightarrow> world \<Rightarrow>
   (string + (string \<rightharpoonup> any)) \<times> world" where
  "executeLLMAction E e pluginAgent issue params w =
     (let templateName = extractTemplateName (lower_table E) pluginAgent;
          data = issue_data E issue;
          wide = (Contains (ToLower (lower_table E) (Name pluginAgent)) ''executive'' \<or>
                  Contains (ToLower (lower_table E) (Name pluginAgent)) ''progress'' \<or>
                  Contains (ToLower (lower_table E) (Name pluginAgent)) ''summary'')
      in case (if wide then gatherProjectStats E w else (Inr Map.empty, w)) of
           (Inl panic, w1) \<Rightarrow> (Inl panic, w1)
         | (Inr stats, w1) \<Rightarrow>
             (let data = data ++ stats;
                  data = data ++ params;
                  prompt =
                    (case executorPromptLoader e of
                       None \<Rightarrow> []
                     | Some l \<Rightarrow>
                         (if templateName \<noteq> [] \<and> HasTemplate l templateName
                          then (case Render l templateName data of
                                  Inr rendered \<Rightarrow> rendered
                                | Inl err \<Rightarrow> [])
                          else []));
                  prompt = (if prompt = [] then generic_fallback_prompt issue else prompt)
              in case Prompt E prompt w1 of
                   (Inl err, w2) \<Rightarrow>
                     (Inr [''error'' \<mapsto> AnyString (''LLM call failed: '' @ err)], w2)
                 | (Inr raw, w2) \<Rightarrow>
                     (let summary = clean_summary raw
                      in (Inr [''summary'' \<mapsto> AnyString summary,
                               ''content'' \<mapsto> AnyString summary], w2))))"

subsection \<open>\<open>addCommentToIssue\<close>\<close>

definition addCommentToIssue ::
  "env \<Rightarrow> PluginAgent \<Rightarrow> int \<Rightarrow> string \<Rightarrow> world \<Rightarrow> string option \<times> world" where
  "addCommentToIssue E pluginAgent issueNum content w =
     (case GetIssue E [] [] issueNum w of
        (Inl err, w1) \<Rightarrow> (Some err, w1)
      | (Inr issue, w1) \<Rightarrow>
          (let (owner, repo) = extractRepoFromURL (URL issue);
               commentPrefix = robot @ '' **'' @ Name pluginAgent @ ''**\<newline>\<newline>'';
               content = TrimSpace content;
               content = (if \<not> HasPrefix content ''\<newline>'' then ''\<newline>'' @ content else content);
               comment = commentPrefix @ content
           in AddComment E owner repo issueNum comment w1))"

subsection \<open>\<open>executeGeneric\<close>\<close>

text \<open>The three keyword tests on the lower-cased action phrase.\<close>

definition is_length_check :: "string \<Rightarrow> bool" where
  "is_length_check actionLower =
     (Contains actionLower ''check'' \<and>
      (Contains actionLower ''length'' \<or> Contains actionLower ''long'' \<or>
       Contains actionLower ''threshold''))"

definition is_generate :: "string \<Rightarrow> bool" where
  "is_generate actionLower =
     ((Contains actionLower ''llm'' \<or> Contains actionLower ''generate'') \<and>
      (Contains actionLower ''summary'' \<or> Contains actionLower ''content'' \<or>
       Contains actionLower ''text''))"

definition is_add_comment :: "string \<Rightarrow> bool" where
  "is_add_comment actionLower =
     (Contains actionLower ''add'' \<and> Contains actionLower ''comment'')"

text \<open>
  The fetch each block starts with: \<open>if issue == nil { issue, issueErr = GetIssue(...) }\<close>.
\<close>

definition fetch_issue ::
  "env \<Rightarrow> int \<Rightarrow> Issue option \<Rightarrow> world \<Rightarrow> (string + Issue) \<times> world" where
  "fetch_issue E issueNum issue w =
     (case issue of
        Some i \<Rightarrow> (Inr i, w)
      | None \<Rightarrow> GetIssue E [] [] issueNum w)"

text \<open>
  Each block takes the local state of \<open>executeGeneric\<close> (the \<open>result\<close> map and the
  cached \<open>issue\<close>) and either returns from the function (\<open>Inl\<close>) or goes on (\<open>Inr\<close>).
\<close>

type_synonym generic_state = "(string \<rightharpoonup> any) \<times> Issue option"

text \<open>
  The test \<open>if s, ok := m[key].(string); ok && s != ""\<close>: the string under the key, when
  there is one and it is not empty.
\<close>

definition nonempty_string_at :: "(string \<rightharpoonup> any) \<Rightarrow> string \<Rightarrow> string option" where
  "nonempty_string_at m key =
     (case m key of
        Some (AnyString s) \<Rightarrow> if s \<noteq> [] then Some s else None
      | _ \<Rightarrow> None)"

definition too_short_message :: "int \<Rightarrow> int \<Rightarrow> string" where
  "too_short_message n minLength =
     ''Task is too short to summarize ('' @ Itoa n @ '' chars, minimum '' @ Itoa minLength @ '')''"

text \<open>
  \<open>minLength := 200\<close>, replaced by \<open>Config["min_length_for_summary"]\<close> when that is an
  \<open>int\<close>.
\<close>

definition configured_minLength :: "PluginAgent \<Rightarrow> int" where
  "configured_minLength pluginAgent =
     (case Config pluginAgent ''min_length_for_summary'' of
        Some (AnyInt config) \<Rightarrow> config
      | _ \<Rightarrow> 200)"

definition length_check_block ::
  "env \<Rightarrow> PluginAgent \<Rightarrow> int \<Rightarrow> bool \<Rightarrow> string \<Rightarrow> generic_state \<Rightarrow> world \<Rightarrow>
   (outcome + generic_state) \<times> world" where
  "length_check_block E pluginAgent issueNum hasIssue actionLower st w =
     (case st of (result, issue) \<Rightarrow>
      if is_length_check actionLower \<and> hasIssue then
        (case fetch_issue E issueNum issue w of
           (Inl issueErr, w1) \<Rightarrow> (Inl (Failed (''failed to get issue: '' @ issueErr)), w1)
         | (Inr i, w1) \<Rightarrow>
             (let minLength = configured_minLength pluginAgent
              in if int (length (Body i)) < minLength
                 then (Inl (Returned
                         (result(''status'' \<mapsto> AnyString ''skipped'',
                                 ''message'' \<mapsto> AnyString
                                    (too_short_message (int (length (Body i))) minLength)))),
                       w1)
                 else (Inr (result(''task_length'' \<mapsto> AnyInt (int (length (Body i))),
                                   ''length_check_passed'' \<mapsto> AnyBool True),
                            Some i),
                       w1)))
      else (Inr st, w))"

definition generate_block ::
  "env \<Rightarrow> PluginExecutor \<Rightarrow> PluginAgent \<Rightarrow> (string \<rightharpoonup> any) \<Rightarrow> int \<Rightarrow> bool \<Rightarrow> string \<Rightarrow>
   generic_state \<Rightarrow> world \<Rightarrow> (outcome + generic_state) \<times> world" where
  "generate_block E e pluginAgent params issueNum hasIssue actionLower st w =
     (case st of (result, issue) \<Rightarrow>
      if is_generate actionLower \<and> hasIssue then
        (case fetch_issue E issueNum issue w of
           (Inl issueErr, w1) \<Rightarrow> (Inl (Failed (''failed to get issue: '' @ issueErr)), w1)
         | (Inr i, w1) \<Rightarrow>
             (case executeLLMAction E e pluginAgent i params w1 of
                (Inl panic, w2) \<Rightarrow> (Inl (Panicked panic), w2)
              | (Inr llmResult, w2) \<Rightarrow>
                  (let result =
                         (case nonempty_string_at llmResult ''summary'' of
                            Some summary \<Rightarrow>
                              result(''summary'' \<mapsto> AnyString summary,
                                     ''llm_called'' \<mapsto> AnyBool True)
                          | None \<Rightarrow>
                              (case nonempty_string_at llmResult ''content'' of
                                 Some content \<Rightarrow>
                                   result(''summary'' \<mapsto> AnyString content,
                                          ''llm_called'' \<mapsto> AnyBool True)
                               | None \<Rightarrow> result))
                   in (Inr (result, Some i), w2))))
      else (Inr st, w))"

definition comment_added_message :: "int \<Rightarrow> string" where
  "comment_added_message issueNum =
     ''Summary generated and added as comment to issue #'' @ Itoa issueNum"

definition comment_block ::
  "env \<Rightarrow> PluginAgent \<Rightarrow> int \<Rightarrow> bool \<Rightarrow> string \<Rightarrow> generic_state \<Rightarrow> world \<Rightarrow>
   (outcome + generic_state) \<times> world" where
  "comment_block E pluginAgent issueNum hasIssue actionLower st w =
     (case st of (result, issue) \<Rightarrow>
      if is_add_comment actionLower \<and> hasIssue then
        (case fetch_issue E issueNum issue w of
           (Inl issueErr, w1) \<Rightarrow> (Inl (Failed (''failed to get issue: '' @ issueErr)), w1)
         | (Inr i, w1) \<Rightarrow>
             (let commentContent =
                    (case nonempty_string_at result ''summary'' of
                       Some summary \<Rightarrow> summary
                     | None \<Rightarrow> robot @ '' **'' @ Name pluginAgent @ ''** executed successfully.'')
              in case addCommentToIssue E pluginAgent issueNum commentContent w1 of
                   (None, w2) \<Rightarrow>
                     (let result = result(''comment_added'' \<mapsto> AnyBool True);
                          result =
                            (if result ''message'' = None
                             then result(''message'' \<mapsto> AnyString (comment_added_message issueNum))
                             else if result ''summary'' \<noteq> None
                             then result(''message'' \<mapsto> AnyString (comment_added_message issueNum))
                             else result);
                          result = result(''status'' \<mapsto> AnyString ''completed'')
                      in (Inr (result, Some i), w2))
                 | (Some err, w2) \<Rightarrow>
                     (Inr (result(''comment_error'' \<mapsto> AnyString err), Some i), w2)))
      else (Inr st, w))"

text \<open>The body of the loop over \<open>pluginAgent.Actions\<close>: the three blocks, in this order.\<close>

definition action_step ::
  "env \<Rightarrow> PluginExecutor \<Rightarrow> PluginAgent \<Rightarrow> (string \<rightharpoonup> any) \<Rightarrow> int \<Rightarrow> bool \<Rightarrow> string \<Rightarrow>
   generic_state \<Rightarrow> world \<Rightarrow> (outcome + generic_state) \<times> world" where
  "action_step E e pluginAgent params issueNum hasIssue action st w =
     (let actionLower = ToLower (lower_table E) action in
      case length_check_block E pluginAgent issueNum hasIssue actionLower st w of
        (Inl out, w1) \<Rightarrow> (Inl out, w1)
      | (Inr st1, w1) \<Rightarrow>
          (case generate_block E e pluginAgent params issueNum hasIssue actionLower st1 w1 of
             (Inl out, w2) \<Rightarrow> (Inl out, w2)
           | (Inr st2, w2) \<Rightarrow>
               comment_block E pluginAgent issueNum hasIssue actionLower st2 w2))"

fun actions_loop ::
  "env \<Rightarrow> PluginExecutor \<Rightarrow> PluginAgent \<Rightarrow> (string \<rightharpoonup> any) \<Rightarrow> int \<Rightarrow> bool \<Rightarrow> string list \<Rightarrow>
   generic_state \<Rightarrow> world \<Rightarrow> (outcome + generic_state) \<times> world" where
  "actions_loop E e pluginAgent params issueNum hasIssue [] st w = (Inr st, w)"
| "actions_loop E e pluginAgent params issueNum hasIssue (action # rest) st w =
     (case action_step E e pluginAgent params issueNum hasIssue action st w of
        (Inl out, w1) \<Rightarrow> (Inl out, w1)
      | (Inr st1, w1) \<Rightarrow> actions_loop E e pluginAgent params issueNum hasIssue rest st1 w1)"

definition executed_message :: "PluginAgent \<Rightarrow> string" where
  "executed_message pluginAgent =
     ''Plugin '' @ [CHR 0x27] @ Name pluginAgent @ [CHR 0x27] @ '' executed with '' @
     Itoa (int (length (Actions pluginAgent))) @ '' actions''"

text \<open>The \<open>result\<close> map before the loop: the four fixed keys, and \<open>issue\<close> when there is one.\<close>

definition initial_result :: "PluginAgent \<Rightarrow> int \<Rightarrow> bool \<Rightarrow> (string \<rightharpoonup> any)" where
  "initial_result pluginAgent issueNum hasIssue =
     (let result = [''agent'' \<mapsto> AnyString (Name pluginAgent),
                    ''type'' \<mapsto> AnyString (Type pluginAgent),
                    ''status'' \<mapsto> AnyString ''executed'',
                    ''actions'' \<mapsto> AnyStrings (Actions pluginAgent)]
      in if hasIssue then result(''issue'' \<mapsto> AnyInt issueNum) else result)"

definition executeGeneric ::
  "env \<Rightarrow> PluginExecutor \<Rightarrow> PluginAgent \<Rightarrow> (string \<rightharpoonup> any) \<Rightarrow> world \<Rightarrow> outcome \<times> world" where
  "executeGeneric E e pluginAgent params w =
     (case extractIssueNumber (float_overflow E) params of
           (issueNum, hasIssue) \<Rightarrow>
             (let result = initial_result pluginAgent issueNum hasIssue in
              case actions_loop E e pluginAgent params issueNum hasIssue (Actions pluginAgent)
                     (result, None) w of
                (Inl out, w1) \<Rightarrow> (out, w1)
              | (Inr (result, issue), w1) \<Rightarrow>
                  (let result =
                         (if result ''message'' = None
                          then result(''message'' \<mapsto> AnyString (executed_message pluginAgent))
                          else result)
                   in (Returned result, w1))))"

subsection \<open>\<open>Execute\<close>\<close>

datatype executor_kind =
    ValidatorExecutor
  | MonitorExecutor
  | RoasterExecutor
  | CodeReviewExecutor
  | DeploymentExecutor
  | ExecutiveSummaryExecutor
  | ProgressReporterExecutor
  | GenericExecutor

text \<open>The \<open>switch\<close> of \<open>Execute\<close>: the first case that holds selects the executor.\<close>

definition select_executor :: "case_table \<Rightarrow> PluginAgent \<Rightarrow> executor_kind" where
  "select_executor tbl pluginAgent =
     (let name = Name pluginAgent; lower = ToLower tbl (Name pluginAgent) in
      if name = ''Task Validator'' \<or> Contains lower ''validator'' then ValidatorExecutor
      else if name = ''Stale Task Monitor'' \<or> Contains lower ''monitor'' then MonitorExecutor
      else if name = ''Product Roaster'' \<or> Contains lower ''roaster'' then RoasterExecutor
      else if Contains lower ''code review'' \<or> Contains lower ''review'' then CodeReviewExecutor
      else if Contains lower ''deployment'' then DeploymentExecutor
      else if name = ''Executive Summary Generator'' \<or> Contains lower ''executive summary''
      then ExecutiveSummaryExecutor
      else if name = ''Progress Reporter'' \<or> Contains lower ''progress reporter''
      then ProgressReporterExecutor
      else GenericExecutor)"

text \<open>
  \<open>Execute\<close> for the two executors of this development; \<open>None\<close> stands for the run of one
  of the others.
\<close>

definition Execute ::
  "env \<Rightarrow> PluginExecutor \<Rightarrow> PluginAgent \<Rightarrow> (string \<rightharpoonup> any) \<Rightarrow> world \<Rightarrow> (outcome \<times> world) option" where
  "Execute E e pluginAgent params w =
     (case select_executor (lower_table E) pluginAgent of
        ValidatorExecutor \<Rightarrow> Some (executeValidator E pluginAgent params w)
      | GenericExecutor \<Rightarrow> Some (executeGeneric E e pluginAgent params w)
      | _ \<Rightarrow> None)"

section \<open>Notions used to state the properties\<close>

text \<open>The number of positions of \<open>s\<close> at which \<open>sub\<close> occurs.\<close>

fun count_occ :: "string \<Rightarrow> string \<Rightarrow> nat" where
  "count_occ [] sub = (if sub = [] then 1 else 0)"
| "count_occ (c # cs) sub = (if HasPrefix (c # cs) sub then 1 else 0) + count_occ cs sub"

definition marker_free :: "string \<Rightarrow> bool" where
  "marker_free s = (\<not> Contains s agentNoticeStart \<and> \<not> Contains s agentNoticeEnd)"

text \<open>
  The two parts of the text that \<open>modificationNotice\<close> builds: the notice block up to the end
  marker, and what follows the end marker and the blank line after it.
\<close>

definition notice_head :: "string \<Rightarrow> string" where
  "notice_head violationsList =
     agentNoticeStart @
     ''\<newline><details>\<newline><summary>'' @ robot @
     '' <strong>Automatically modified by Agent</strong> - Click to see what changed</summary>\<newline>'' @
     ''\<newline>This issue was automatically updated to comply with format guidelines.\<newline>'' @
     ''\<newline>**Issues fixed:**\<newline>'' @
     violationsList @
     ''\<newline></details>\<newline>''"

definition notice_rest :: "string \<Rightarrow> string \<Rightarrow> string" where
  "notice_rest fixedBody cleanedOriginal =
     ''---\<newline>\<newline>'' @
     fixedBody @
     ''\<newline>\<newline>---\<newline>\<newline><details>\<newline><summary>'' @ clipboard @
     '' Original content (preserved for reference)</summary>\<newline>\<newline>'' @
     cleanedOriginal @
     ''\<newline>\<newline></details>\<newline>''"

text \<open>
  A string of ASCII bytes, and two bytes that are equal or the upper case and the lower
  case of one ASCII letter.
\<close>

definition ascii_string :: "string \<Rightarrow> bool" where
  "ascii_string s = list_all (\<lambda>c. byte c < 0x80) s"

definition same_letter :: "char \<Rightarrow> char \<Rightarrow> bool" where
  "same_letter c d =
     (c = d \<or> (is_upper c \<and> byte d = byte c + 0x20) \<or> (is_upper d \<and> byte c = byte d + 0x20))"

text \<open>Values for the concrete runs.\<close>

definition issue0 :: Issue where
  "issue0 =
     \<lparr>Number = 1, Title = ''t'', Body = ''short'', State = ''open'', Labels = [],
      Assignee = [], CreatedAt = Time 0, UpdatedAt = Time 0, URL = []\<rparr>"

definition small_rules :: TaskFormatRules where
  "small_rules =
     \<lparr>RequiredSections = [''Goal''], MinDescriptionLength = 5, RequireLabels = True,
      LabelPrefix = ''p:''\<rparr>"

text \<open>
  A section name with two letters U+00E9 (e with acute accent), as \<open>R\<close>, U+00E9, \<open>sum\<close>,
  U+00E9, and a body that starts with this name in upper case, the accented letters being
  U+00C9; both in UTF-8.
\<close>

definition accent_rules :: TaskFormatRules where
  "accent_rules =
     \<lparr>RequiredSections = [[CHR 0x52, CHR 0xC3, CHR 0xA9, CHR 0x73, CHR 0x75, CHR 0x6D, CHR 0xC3, CHR 0xA9]],
      MinDescriptionLength = 5, RequireLabels = False, LabelPrefix = []\<rparr>"

definition accent_body :: string where
  "accent_body =
     [CHR 0x52, CHR 0xC3, CHR 0x89, CHR 0x53, CHR 0x55, CHR 0x4D, CHR 0xC3, CHR 0x89] @ '' of the task''"

definition twice_rules :: TaskFormatRules where
  "twice_rules =
     \<lparr>RequiredSections = [''A'', ''A''], MinDescriptionLength = 0, RequireLabels = False,
      LabelPrefix = []\<rparr>"

definition len_rules :: TaskFormatRules where
  "len_rules =
     \<lparr>RequiredSections = [], MinDescriptionLength = 10, RequireLabels = False, LabelPrefix = []\<rparr>"

definition validator0 :: Validator where
  "validator0 = \<lparr>rules = len_rules, guidelines = None, promptLoader = None\<rparr>"

text \<open>
  A case table with the entry of U+00C9 (E with acute accent), whose lower case is U+00E9,
  and no other.
\<close>

definition e_acute_table :: case_table where
  "e_acute_table r = (if r = [CHR 0xC3, CHR 0x89] then [CHR 0xC3, CHR 0xA9] else r)"

definition quiet_env :: env where
  "quiet_env =
     \<lparr>fails = (\<lambda>w c. None), completion = (\<lambda>w p. ''fixed''), prompts_dir_loader = None,
      format_date = (\<lambda>t. []), format_rate = (\<lambda>a b. []), lower_table = e_acute_table,
      float_overflow = (\<lambda>f. - (2 ^ 63))\<rparr>"

definition comment_fail_env :: env where
  "comment_fail_env =
     quiet_env\<lparr>fails := (\<lambda>w c. case c of AddCommentCall ow rp n t \<Rightarrow> Some ''boom'' | _ \<Rightarrow> None)\<rparr>"

definition world0 :: world where
  "world0 = \<lparr>store_issues = [issue0], store_comments = [], call_log = [], stdout_log = []\<rparr>"

definition positive_issue_number :: "(float64 \<Rightarrow> int) \<Rightarrow> any option \<Rightarrow> bool" where
  "positive_issue_number beyond v =
     (case v of
        Some (AnyInt n) \<Rightarrow> n > 0
      | Some (AnyFloat f) \<Rightarrow> int_of_float beyond f > 0
      | _ \<Rightarrow> False)"

definition phrase_check :: string where
  "phrase_check = ''Check if task body is longer than threshold (minimum length check)''"

definition phrase_generate :: string where
  "phrase_generate = ''Generate concise summary using LLM (call LLM with prompt template)''"

definition phrase_comment :: string where
  "phrase_comment = ''Add summary as a comment on the issue (add comment with generated content)''"

definition summarizer :: PluginAgent where
  "summarizer =
     \<lparr>Name = ''Task Summarizer'', Type = ''custom'',
      Actions = [phrase_check, phrase_generate, phrase_comment],
      Config = [''min_length_for_summary'' \<mapsto> AnyInt 50],
      PromptPath = ''prompts/summarizer.md''\<rparr>"

definition executor0 :: PluginExecutor where
  "executor0 = \<lparr>executorPromptLoader = None\<rparr>"

definition issue10 :: Issue where
  "issue10 = issue0\<lparr>Body := ''ten chars.''\<rparr>"

definition world10 :: world where
  "world10 = \<lparr>store_issues = [issue10], store_comments = [], call_log = [], stdout_log = []\<rparr>"

definition returned_map :: "outcome \<Rightarrow> (string \<rightharpoonup> any) option" where
  "returned_map out = (case out of Returned r \<Rightarrow> Some r | _ \<Rightarrow> None)"

definition issue60 :: Issue where
  "issue60 = issue0\<lparr>Body := ''This task body is long enough to pass the length check.''\<rparr>"

definition world60 :: world where
  "world60 = \<lparr>store_issues = [issue60], store_comments = [], call_log = [], stdout_log = []\<rparr>"

definition params1 :: "string \<rightharpoonup> any" where
  "params1 = [''issue_number'' \<mapsto> AnyInt 1]"

definition params_zero :: "string \<rightharpoonup> any" where
  "params_zero = [''issue_number'' \<mapsto> AnyInt 0, ''issue'' \<mapsto> AnyFloat (Finite (1 / 2))]"

text \<open>
  For the batch validation: the sentinel label, the open issues of the store, the issue a
  call of the store writes to, the calls a run adds to the log, and the relation between
  the store before and after a run that touches only the issues whose number is in \<open>S\<close>
  (numbers and states are kept, labels are only added).
\<close>

definition has_sentinel :: "Issue \<Rightarrow> bool" where
  "has_sentinel i = (''agent-validator'' \<in> set (Labels i))"

definition open_issues :: "world \<Rightarrow> Issue list" where
  "open_issues w = filter (\<lambda>i. State i = ''open'') (store_issues w)"

fun call_target :: "call \<Rightarrow> int option" where
  "call_target (UpdateIssueCall ow rp n t b) = Some n"
| "call_target (AddCommentCall ow rp n c) = Some n"
| "call_target (AddLabelCall ow rp n l) = Some n"
| "call_target c = None"

fun is_add_label :: "call \<Rightarrow> bool" where
  "is_add_label (AddLabelCall ow rp n l) = True"
| "is_add_label c = False"

definition new_calls :: "world \<Rightarrow> world \<Rightarrow> (call \<times> string option) list" where
  "new_calls w w' = drop (length (call_log w)) (call_log w')"

definition store_step :: "int set \<Rightarrow> world \<Rightarrow> world \<Rightarrow> bool" where
  "store_step S w w' =
     list_all2
       (\<lambda>i j. Number j = Number i \<and> State j = State i \<and> set (Labels i) \<subseteq> set (Labels j) \<and>
              (Number i \<notin> S \<longrightarrow> j = i))
       (store_issues w) (store_issues w')"

definition error_count :: "(string \<rightharpoonup> any) \<Rightarrow> int" where
  "error_count r = (case r ''error_count'' of Some (AnyInt n) \<Rightarrow> n | _ \<Rightarrow> 0)"

definition acc0 :: validate_acc where
  "acc0 = \<lparr>validatedCount = 0, fixedCount = 0, errors = [], validatedIssues = []\<rparr>"

definition issue_done :: Issue where
  "issue_done = issue0\<lparr>Number := 1, Labels := [''agent-validator'']\<rparr>"

definition issue_new :: Issue where
  "issue_new =
     issue0\<lparr>Number := 2,
            Body := ''Description: do the thing. Acceptance criteria: it is done.'',
            Labels := [''priority:high'']\<rparr>"

definition issue_closed :: Issue where
  "issue_closed = issue0\<lparr>Number := 3, State := ''closed''\<rparr>"

definition world3 :: world where
  "world3 =
     \<lparr>store_issues = [issue_done, issue_new, issue_closed], store_comments = [], call_log = [],
      stdout_log = []\<rparr>"

definition validator_agent :: PluginAgent where
  "validator_agent =
     \<lparr>Name = ''Task Validator'', Type = ''core'', Actions = [], Config = Map.empty,
      PromptPath = []\<rparr>"

section \<open>Facts about the string functions\<close>

lemma bit_one_0: "bit (Suc 0) 0"
  by (simp add: bit_0)

lemma lower_byte_table:
  "lower_byte c =
     (case map_of (zip ''ABCDEFGHIJKLMNOPQRSTUVWXYZ'' ''abcdefghijklmnopqrstuvwxyz'') c of
        Some l \<Rightarrow> l
      | None \<Rightarrow> c)"
  by (cases c) (simp add: lower_byte_def is_upper_def byte_def char_of_def bit_one_0)

lemmas ToLower_eval = ToLower_def byte_def RuneSelf_def lower_byte_table

lemma ToLower_ascii: "ascii_string s \<Longrightarrow> ToLower tbl s = map lower_byte s"
  by (simp add: ToLower_def ascii_string_def RuneSelf_def)

lemma TrimSpace_stop_keep:
  "s \<noteq> [] \<Longrightarrow> byte (last s) < RuneSelf \<Longrightarrow> \<not> asciiSpace (last s) \<Longrightarrow> TrimSpace_stop s = s"
  by (subst TrimSpace_stop.simps) simp

lemma TrimSpace_fixed: "TrimSpace ''fixed'' = ''fixed''"
  by (simp add: TrimSpace_stop_keep byte_def RuneSelf_def asciiSpace_def)

lemma same_letter_iff: "same_letter c d \<longleftrightarrow> lower_byte c = lower_byte d"
proof -
  have lt: "byte x < 256" for x by (simp add: byte_def)
  have inj: "byte x = byte y \<longleftrightarrow> x = y" for x y by (simp add: byte_def)
  have co: "char_of (byte x) = x" for x by (simp add: byte_def)
  have bc: "n < 256 \<Longrightarrow> byte (char_of n) = n" for n :: nat by (simp add: byte_def)
  have up: "is_upper x \<Longrightarrow> byte (lower_byte x) = byte x + 0x20" for x
    by (simp add: lower_byte_def is_upper_def bc)
  have nu: "\<not> is_upper x \<Longrightarrow> lower_byte x = x" for x by (simp add: lower_byte_def)
  have lo: "is_upper x \<Longrightarrow> \<not> is_upper (lower_byte x)" for x
    using up[of x] by (simp add: is_upper_def)
  show ?thesis
  proof (cases "is_upper c"; cases "is_upper d")
    assume c: "is_upper c" and d: "is_upper d"
    have "lower_byte c = lower_byte d \<longleftrightarrow> byte (lower_byte c) = byte (lower_byte d)"
      by (simp add: inj)
    also have "\<dots> \<longleftrightarrow> byte c = byte d" using up[OF c] up[OF d] by simp
    also have "\<dots> \<longleftrightarrow> c = d" by (rule inj)
    finally show ?thesis using c d by (auto simp: same_letter_def is_upper_def)
  next
    assume c: "is_upper c" and d: "\<not> is_upper d"
    have "lower_byte c = lower_byte d \<longleftrightarrow> byte (lower_byte c) = byte d"
      using nu[OF d] by (simp add: inj)
    also have "\<dots> \<longleftrightarrow> byte d = byte c + 0x20" using up[OF c] by auto
    finally show ?thesis using c d by (auto simp: same_letter_def)
  next
    assume c: "\<not> is_upper c" and d: "is_upper d"
    have "lower_byte c = lower_byte d \<longleftrightarrow> byte c = byte (lower_byte d)"
      using nu[OF c] by (simp add: inj)
    also have "\<dots> \<longleftrightarrow> byte c = byte d + 0x20" using up[OF d] by auto
    finally show ?thesis using c d by (auto simp: same_letter_def)
  next
    assume c: "\<not> is_upper c" and d: "\<not> is_upper d"
    then show ?thesis using nu[OF c] nu[OF d] by (auto simp: same_letter_def)
  qed
qed

lemma map_lower_eq_iff:
  "map lower_byte xs = map lower_byte ys \<longleftrightarrow> list_all2 same_letter xs ys"
proof -
  have "map lower_byte xs = map lower_byte ys \<longleftrightarrow>
        list_all2 (\<lambda>c d. lower_byte c = lower_byte d) xs ys"
    by (auto simp: list_all2_conv_all_nth list_eq_iff_nth_eq)
  then show ?thesis by (simp add: same_letter_iff[abs_def])
qed

lemma lowered_occurs_iff:
  "(\<exists>p q. map lower_byte body = p @ map lower_byte s @ q) \<longleftrightarrow>
   (\<exists>pre mid post. body = pre @ mid @ post \<and> list_all2 same_letter mid s)"
proof
  assume "\<exists>p q. map lower_byte body = p @ map lower_byte s @ q"
  then obtain p q where e: "map lower_byte body = p @ map lower_byte s @ q" by blast
  from e[unfolded map_eq_append_conv] obtain pre r where b: "body = pre @ r"
    and r: "map lower_byte s @ q = map lower_byte r"
    by blast
  from r[unfolded append_eq_map_conv] obtain mid post where "r = mid @ post"
    and m: "map lower_byte s = map lower_byte mid"
    by blast
  with b m[symmetric] have "body = pre @ mid @ post \<and> list_all2 same_letter mid s"
    by (simp add: map_lower_eq_iff[symmetric])
  then show "\<exists>pre mid post. body = pre @ mid @ post \<and> list_all2 same_letter mid s" by blast
next
  assume "\<exists>pre mid post. body = pre @ mid @ post \<and> list_all2 same_letter mid s"
  then obtain pre mid post where b: "body = pre @ mid @ post" and "list_all2 same_letter mid s"
    by blast
  then have "map lower_byte mid = map lower_byte s" by (simp add: map_lower_eq_iff)
  with b have "map lower_byte body = map lower_byte pre @ map lower_byte s @ map lower_byte post"
    by simp
  then show "\<exists>p q. map lower_byte body = p @ map lower_byte s @ q" by blast
qed

lemma HasPrefix_iff: "HasPrefix s pre \<longleftrightarrow> (\<exists>r. s = pre @ r)"
  unfolding HasPrefix_def
proof
  assume "length pre \<le> length s \<and> take (length pre) s = pre"
  then have "s = pre @ drop (length pre) s" by (metis append_take_drop_id)
  then show "\<exists>r. s = pre @ r" ..
next
  assume "\<exists>r. s = pre @ r"
  then show "length pre \<le> length s \<and> take (length pre) s = pre" by auto
qed

lemma HasPrefix_Nil [simp]: "HasPrefix s []"
  by (simp add: HasPrefix_def)

lemma HasPrefix_Nil_left [simp]: "HasPrefix [] (p # ps) = False"
  by (simp add: HasPrefix_def)

lemma HasPrefix_Cons [simp]: "HasPrefix (c # cs) (p # ps) \<longleftrightarrow> c = p \<and> HasPrefix cs ps"
  by (auto simp: HasPrefix_def)

lemma Index_range:
  "Index s substr = - 1 \<or>
   (0 \<le> Index s substr \<and> Index s substr + int (length substr) \<le> int (length s))"
  by (induction s) (auto simp: Let_def HasPrefix_def)

lemma Index_absent: "Index s substr = - 1 \<Longrightarrow> s \<noteq> pre @ substr @ post"
proof (induction s arbitrary: pre)
  case Nil
  then show ?case by (auto split: if_splits)
next
  case (Cons c cs)
  from Cons.prems have np: "\<not> HasPrefix (c # cs) substr" and r: "Index cs substr = - 1"
    using Index_range[of cs substr] by (auto simp: Let_def split: if_splits)
  show ?case
  proof (cases pre)
    case Nil
    with np show ?thesis by (auto simp: HasPrefix_iff)
  next
    case (Cons p ps)
    with Cons.IH[OF r, of ps] show ?thesis by auto
  qed
qed

lemma Index_present:
  "0 \<le> Index s substr \<Longrightarrow>
   s = take (nat (Index s substr)) s @ substr @ drop (nat (Index s substr) + length substr) s"
proof (induction s)
  case Nil
  then show ?case by (auto split: if_splits)
next
  case (Cons c cs)
  show ?case
  proof (cases "HasPrefix (c # cs) substr")
    case True
    then have "c # cs = substr @ drop (length substr) (c # cs)"
      unfolding HasPrefix_def by (metis append_take_drop_id)
    with True show ?thesis by simp
  next
    case False
    with Cons.prems have r: "0 \<le> Index cs substr"
      and e: "Index (c # cs) substr = Index cs substr + 1"
      by (auto simp: Let_def split: if_splits)
    have n: "nat (Index cs substr + 1) = Suc (nat (Index cs substr))" using r by simp
    from Cons.IH[OF r] show ?thesis unfolding e n by simp
  qed
qed

lemma Contains_iff: "Contains s substr \<longleftrightarrow> (\<exists>pre post. s = pre @ substr @ post)"
proof
  assume "Contains s substr"
  then have "0 \<le> Index s substr" by (simp add: Contains_def)
  from Index_present[OF this] show "\<exists>pre post. s = pre @ substr @ post" by blast
next
  assume "\<exists>pre post. s = pre @ substr @ post"
  then obtain pre post where e: "s = pre @ substr @ post" by blast
  have "Index s substr \<noteq> - 1" using Index_absent[of s substr pre post] e by blast
  then show "Contains s substr" using Index_range[of s substr] by (auto simp: Contains_def)
qed

lemma Index_prefix: "sub \<noteq> [] \<Longrightarrow> Index (sub @ r) sub = 0"
  by (cases sub) (auto simp: HasPrefix_iff)

lemma Index_Cons_absent: "Index (c # cs) sub = - 1 \<Longrightarrow> Index cs sub = - 1"
  using Index_range[of cs sub] by (auto simp: Let_def split: if_splits)

text \<open>
  If \<open>sub\<close> does not occur in \<open>X\<close> followed by all of \<open>sub\<close> but its last byte, then the
  first occurrence of \<open>sub\<close> in \<open>X @ sub @ Y\<close> is the one written.
\<close>

lemma Index_first:
  assumes "sub \<noteq> []" and "\<not> Contains (X @ butlast sub) sub"
  shows "Index (X @ sub @ Y) sub = int (length X)"
  using assms(2)
proof (induction X)
  case Nil
  obtain p ps where "sub = p # ps" using assms(1) by (cases sub) auto
  then show ?case by (simp add: HasPrefix_iff)
next
  case (Cons x X)
  from Cons.prems have a: "Index ((x # X) @ butlast sub) sub = - 1"
    using Index_range[of "(x # X) @ butlast sub" sub] by (auto simp: Contains_def)
  then have np: "\<not> HasPrefix (x # X @ butlast sub) sub" by (auto split: if_splits)
  from a have "Index (X @ butlast sub) sub = - 1" using Index_Cons_absent by simp
  then have "\<not> Contains (X @ butlast sub) sub" by (simp add: Contains_def)
  from Cons.IH[OF this] have ih: "Index (X @ sub @ Y) sub = int (length X)" .
  have "\<not> HasPrefix (x # X @ sub @ Y) sub"
  proof
    assume "HasPrefix (x # X @ sub @ Y) sub"
    then have t: "take (length sub) (x # X @ sub @ Y) = sub" by (simp add: HasPrefix_def)
    have "sub = butlast sub @ [last sub]" using assms(1) by simp
    then have "x # X @ sub @ Y = (x # X @ butlast sub) @ ([last sub] @ Y)"
      by (metis append.assoc append_Cons)
    moreover have "length sub \<le> length (x # X @ butlast sub)" by simp
    ultimately have
      "take (length sub) (x # X @ sub @ Y) = take (length sub) (x # X @ butlast sub)"
      by (metis append_Nil2 diff_is_0_eq take_0 take_append)
    with t have "take (length sub) (x # X @ butlast sub) = sub" by simp
    then have "HasPrefix (x # X @ butlast sub) sub" by (simp add: HasPrefix_def)
    with np show False by simp
  qed
  with ih show ?case by simp
qed

lemma HasPrefix_append_sep:
  assumes "c \<notin> set sub"
  shows "HasPrefix (a @ c # b) sub \<longleftrightarrow> HasPrefix a sub"
proof
  assume "HasPrefix a sub"
  then obtain r where "a = sub @ r" by (auto simp: HasPrefix_iff)
  then have "a @ c # b = sub @ (r @ c # b)" by simp
  then show "HasPrefix (a @ c # b) sub" unfolding HasPrefix_iff by blast
next
  assume "HasPrefix (a @ c # b) sub"
  then obtain r where e: "a @ c # b = sub @ r" by (auto simp: HasPrefix_iff)
  then obtain us where "(a = sub @ us \<and> us @ c # b = r) \<or> (a @ us = sub \<and> c # b = us @ r)"
    by (auto simp: append_eq_append_conv2)
  then show "HasPrefix a sub"
  proof
    assume "a = sub @ us \<and> us @ c # b = r"
    then show ?thesis unfolding HasPrefix_iff by blast
  next
    assume h: "a @ us = sub \<and> c # b = us @ r"
    show ?thesis
    proof (cases us)
      case Nil
      with h show ?thesis unfolding HasPrefix_iff by auto
    next
      case (Cons u us')
      with h have "c \<in> set sub" by auto
      with assms show ?thesis by simp
    qed
  qed
qed

text \<open>Occurrences of a text without the byte \<open>c\<close> are counted on each side of a \<open>c\<close>.\<close>

lemma count_occ_sep:
  assumes "c \<notin> set sub" and "sub \<noteq> []"
  shows "count_occ (a @ c # b) sub = count_occ a sub + count_occ b sub"
proof (induction a)
  case Nil
  from assms have "\<not> HasPrefix (c # b) sub" by (cases sub) auto
  with assms show ?case by simp
next
  case (Cons x a)
  have "HasPrefix ((x # a) @ c # b) sub \<longleftrightarrow> HasPrefix (x # a) sub"
    by (rule HasPrefix_append_sep[OF assms(1)])
  with Cons show ?case by simp
qed

lemma count_occ_zero_iff:
  assumes "sub \<noteq> []"
  shows "count_occ s sub = 0 \<longleftrightarrow> \<not> Contains s sub"
proof (induction s)
  case Nil
  from assms show ?case by (simp add: Contains_def)
next
  case (Cons c cs)
  show ?case
  proof (cases "HasPrefix (c # cs) sub")
    case True
    then show ?thesis by (simp add: Contains_def)
  next
    case False
    have "Contains (c # cs) sub \<longleftrightarrow> Contains cs sub"
      using False Index_range[of cs sub] by (auto simp: Contains_def Let_def)
    with False Cons show ?thesis by simp
  qed
qed

section \<open>The schema checker\<close>

lemma check_sections_eq:
  "check_sections tbl b secs acc =
   acc @ map missing_section_msg (filter (\<lambda>s. \<not> Contains b (ToLower tbl s)) secs)"
  by (induction secs arbitrary: acc) auto

lemma hasPriorityLabel_iff: "hasPriorityLabel pre ls \<longleftrightarrow> (\<exists>l \<in> set ls. HasPrefix l pre)"
  by (induction ls) auto

lemma checkFormat_parts:
  "checkFormat tbl fr issue =
     (if int (length (Body issue)) < MinDescriptionLength fr
      then [too_short_msg (MinDescriptionLength fr)] else []) @
     map missing_section_msg
       (filter (\<lambda>s. \<not> Contains (ToLower tbl (Body issue)) (ToLower tbl s)) (RequiredSections fr)) @
     (if RequireLabels fr \<and> \<not> (\<exists>l \<in> set (Labels issue). HasPrefix l (LabelPrefix fr))
      then [missing_label_msg (LabelPrefix fr)] else [])"
  by (simp add: checkFormat_def Let_def check_sections_eq hasPriorityLabel_iff)

text \<open>
  C1. For every issue, every rules and every case table, \<open>checkFormat\<close> returns no
  violation exactly when the body has at least \<open>MinDescriptionLength\<close> bytes, the
  lower-cased body has the lower-cased name of every required section as a substring
  (lower-cased as \<open>strings.ToLower\<close> does), and labels are not required or some label of
  the issue starts with the configured prefix. When the body and the section names are
  ASCII, the middle condition says that every section name occurs in the body up to the
  case of the letters \<open>A\<close> to \<open>Z\<close>: some piece of the body has the length of the name
  and its bytes are those of the name or their upper or lower case.
\<close>

theorem checkFormat_empty_iff:
  "(checkFormat tbl fr issue = [] \<longleftrightarrow>
      MinDescriptionLength fr \<le> int (length (Body issue)) \<and>
      (\<forall>s \<in> set (RequiredSections fr).
         \<exists>pre post. ToLower tbl (Body issue) = pre @ ToLower tbl s @ post) \<and>
      (\<not> RequireLabels fr \<or> (\<exists>l \<in> set (Labels issue). \<exists>r. l = LabelPrefix fr @ r))) \<and>
   (ascii_string (Body issue) \<and> list_all ascii_string (RequiredSections fr) \<longrightarrow>
      (checkFormat tbl fr issue = [] \<longleftrightarrow>
         MinDescriptionLength fr \<le> int (length (Body issue)) \<and>
         (\<forall>s \<in> set (RequiredSections fr).
            \<exists>pre mid post. Body issue = pre @ mid @ post \<and> list_all2 same_letter mid s) \<and>
         (\<not> RequireLabels fr \<or> (\<exists>l \<in> set (Labels issue). \<exists>r. l = LabelPrefix fr @ r))))"
proof -
  have g: "checkFormat tbl fr issue = [] \<longleftrightarrow>
      MinDescriptionLength fr \<le> int (length (Body issue)) \<and>
      (\<forall>s \<in> set (RequiredSections fr).
         \<exists>pre post. ToLower tbl (Body issue) = pre @ ToLower tbl s @ post) \<and>
      (\<not> RequireLabels fr \<or> (\<exists>l \<in> set (Labels issue). \<exists>r. l = LabelPrefix fr @ r))"
    unfolding checkFormat_parts
    by (auto simp: filter_empty_conv Contains_iff HasPrefix_iff)
  have a: "(\<forall>s \<in> set (RequiredSections fr).
              \<exists>pre post. ToLower tbl (Body issue) = pre @ ToLower tbl s @ post) \<longleftrightarrow>
           (\<forall>s \<in> set (RequiredSections fr).
              \<exists>pre mid post. Body issue = pre @ mid @ post \<and> list_all2 same_letter mid s)"
    if b: "ascii_string (Body issue)" and r: "list_all ascii_string (RequiredSections fr)"
  proof (rule ball_cong[OF refl])
    fix s assume "s \<in> set (RequiredSections fr)"
    with r have "ascii_string s" by (simp add: list_all_iff)
    then show "(\<exists>pre post. ToLower tbl (Body issue) = pre @ ToLower tbl s @ post) \<longleftrightarrow>
               (\<exists>pre mid post. Body issue = pre @ mid @ post \<and> list_all2 same_letter mid s)"
      using b lowered_occurs_iff[of "Body issue" s] by (simp add: ToLower_ascii)
  qed
  show ?thesis
  proof (intro conjI impI)
    show "checkFormat tbl fr issue = [] \<longleftrightarrow>
      MinDescriptionLength fr \<le> int (length (Body issue)) \<and>
      (\<forall>s \<in> set (RequiredSections fr).
         \<exists>pre post. ToLower tbl (Body issue) = pre @ ToLower tbl s @ post) \<and>
      (\<not> RequireLabels fr \<or> (\<exists>l \<in> set (Labels issue). \<exists>r. l = LabelPrefix fr @ r))"
      by (rule g)
  next
    assume "ascii_string (Body issue) \<and> list_all ascii_string (RequiredSections fr)"
    then have "(\<forall>s \<in> set (RequiredSections fr).
              \<exists>pre post. ToLower tbl (Body issue) = pre @ ToLower tbl s @ post) \<longleftrightarrow>
           (\<forall>s \<in> set (RequiredSections fr).
              \<exists>pre mid post. Body issue = pre @ mid @ post \<and> list_all2 same_letter mid s)"
      using a by blast
    with g show "checkFormat tbl fr issue = [] \<longleftrightarrow>
         MinDescriptionLength fr \<le> int (length (Body issue)) \<and>
         (\<forall>s \<in> set (RequiredSections fr).
            \<exists>pre mid post. Body issue = pre @ mid @ post \<and> list_all2 same_letter mid s) \<and>
         (\<not> RequireLabels fr \<or> (\<exists>l \<in> set (Labels issue). \<exists>r. l = LabelPrefix fr @ r))"
      by simp
  qed
qed

lemma accent_lowered:
  "ToLower e_acute_table accent_body =
     [] @ ToLower e_acute_table
            [CHR 0x52, CHR 0xC3, CHR 0xA9, CHR 0x73, CHR 0x75, CHR 0x6D, CHR 0xC3, CHR 0xA9] @
     '' of the task''"
  by (simp add: accent_body_def ToLower_eval Map_def range_runes.simps DecodeRuneInString_def
        first_size_def accept_lo_def accept_hi_def unicode_ToLower_def e_acute_table_def)

theorem checkFormat_empty_iff_witness:
  "checkFormat e_acute_table small_rules
     (issue0\<lparr>Body := ''My GOAL'', Labels := [''bug'', ''p:1'']\<rparr>) = [] \<and>
   checkFormat e_acute_table accent_rules (issue0\<lparr>Body := accent_body\<rparr>) = []"
proof -
  let ?i = "issue0\<lparr>Body := ''My GOAL'', Labels := [''bug'', ''p:1'']\<rparr>"
  let ?j = "issue0\<lparr>Body := accent_body\<rparr>"
  have "''My GOAL'' = ''My '' @ ''GOAL'' @ [] \<and> list_all2 same_letter ''GOAL'' ''Goal''"
    by (simp add: same_letter_def is_upper_def byte_def)
  then have a: "\<exists>pre mid post. ''My GOAL'' = pre @ mid @ post \<and> list_all2 same_letter mid ''Goal''"
    by blast
  have b: "\<exists>r. ''p:1'' = ''p:'' @ r" by simp
  have c: "ascii_string ''My GOAL''" "ascii_string ''Goal''"
    by (simp_all add: ascii_string_def byte_def)
  from a b c have one: "checkFormat e_acute_table small_rules ?i = []"
    using checkFormat_empty_iff[of e_acute_table small_rules ?i, THEN conjunct2]
    by (simp add: small_rules_def issue0_def)
  have d: "\<exists>pre post. ToLower e_acute_table accent_body =
             pre @ ToLower e_acute_table
                     [CHR 0x52, CHR 0xC3, CHR 0xA9, CHR 0x73, CHR 0x75, CHR 0x6D, CHR 0xC3, CHR 0xA9] @
             post"
    using accent_lowered by blast
  have l: "(5::int) \<le> int (length accent_body)" by (simp add: accent_body_def)
  from d l have two: "checkFormat e_acute_table accent_rules ?j = []"
    using checkFormat_empty_iff[of e_acute_table accent_rules ?j, THEN conjunct1]
    by (simp add: accent_rules_def issue0_def)
  from one two show ?thesis by simp
qed

lemma messages_differ:
  "too_short_msg n \<noteq> missing_section_msg s"
  "missing_section_msg s \<noteq> missing_label_msg p"
  "too_short_msg n \<noteq> missing_label_msg p"
  "missing_section_msg s = missing_section_msg t \<longleftrightarrow> s = t"
  by (simp_all add: too_short_msg_def missing_section_msg_def missing_label_msg_def)

lemma checkFormat_distinct:
  assumes "distinct (RequiredSections fr)"
  shows "distinct (checkFormat tbl fr issue)"
proof -
  have inj: "inj missing_section_msg" by (rule injI) (simp add: messages_differ)
  have d: "distinct (map missing_section_msg
             (filter (\<lambda>s. \<not> Contains (ToLower tbl (Body issue)) (ToLower tbl s)) (RequiredSections fr)))"
    using assms inj by (simp add: distinct_map inj_on_def)
  show ?thesis
    unfolding checkFormat_parts using d
    by (auto simp: messages_differ messages_differ(2)[symmetric])
qed

text \<open>
  C2 (amended). For every issue, every rules and every case table, the violations come in
  a fixed order: the length violation, then one
  missing-section violation for each required section that is absent, in the configured
  order, then the label violation. Duplicates: there are none when the configured section
  names are pairwise distinct. For the body \<open>short\<close>, no labels and the default rules, the
  result is the four violations too short, missing Description, missing Acceptance
  Criteria, missing priority label, in this order.
\<close>

theorem checkFormat_order:
  "checkFormat tbl fr issue =
     (if int (length (Body issue)) < MinDescriptionLength fr
      then [too_short_msg (MinDescriptionLength fr)] else []) @
     map missing_section_msg
       (filter (\<lambda>s. \<not> Contains (ToLower tbl (Body issue)) (ToLower tbl s)) (RequiredSections fr)) @
     (if RequireLabels fr \<and> \<not> (\<exists>l \<in> set (Labels issue). HasPrefix l (LabelPrefix fr))
      then [missing_label_msg (LabelPrefix fr)] else []) \<and>
   (distinct (RequiredSections fr) \<longrightarrow> distinct (checkFormat tbl fr issue)) \<and>
   checkFormat tbl default_rules (issue\<lparr>Body := ''short'', Labels := []\<rparr>) =
     [''Description too short (minimum 50 characters)'',
      ''Missing required section: Description'',
      ''Missing required section: Acceptance Criteria'',
      ''Missing priority label (should start with '' @ [CHR 0x27] @ ''priority:'' @ [CHR 0x27] @ '')'']"
proof (intro conjI)
  show "distinct (RequiredSections fr) \<longrightarrow> distinct (checkFormat tbl fr issue)"
    using checkFormat_distinct by blast
  show "checkFormat tbl default_rules (issue\<lparr>Body := ''short'', Labels := []\<rparr>) =
     [''Description too short (minimum 50 characters)'',
      ''Missing required section: Description'',
      ''Missing required section: Acceptance Criteria'',
      ''Missing priority label (should start with '' @ [CHR 0x27] @ ''priority:'' @ [CHR 0x27] @ '')'']"
    by (simp add: checkFormat_def default_rules_def too_short_msg_def missing_section_msg_def
          missing_label_msg_def Itoa_def digits.simps digit_char_def Contains_def ToLower_eval)
qed (rule checkFormat_parts)

theorem checkFormat_order_witness:
  "distinct (RequiredSections default_rules) \<and>
   distinct (checkFormat e_acute_table default_rules issue0) \<and>
   length (checkFormat e_acute_table default_rules issue0) = 4"
proof -
  have d: "distinct (RequiredSections default_rules)" by (simp add: default_rules_def)
  have i: "issue0\<lparr>Body := ''short'', Labels := []\<rparr> = issue0" by (simp add: issue0_def)
  note t = checkFormat_order[of e_acute_table default_rules issue0]
  from t[THEN conjunct2, THEN conjunct1] d
  have "distinct (checkFormat e_acute_table default_rules issue0)" by (rule mp)
  moreover from t[THEN conjunct2, THEN conjunct2]
  have "length (checkFormat e_acute_table default_rules issue0) = 4" unfolding i by simp
  ultimately show ?thesis using d by simp
qed

text \<open>
  The claim as stated fails when a section name is configured twice: the same violation
  is then listed twice.
\<close>

theorem checkFormat_duplicates_counterexample:
  "\<not> distinct (checkFormat e_acute_table twice_rules (issue0\<lparr>Body := []\<rparr>))"
  by (simp add: checkFormat_def twice_rules_def issue0_def missing_section_msg_def Contains_def
        ToLower_eval)

section \<open>The content merger\<close>

lemma violationsList_loop_eq:
  "violationsList_loop vs acc = acc @ concat (map (\<lambda>v. ''- '' @ v @ ''\<newline>'') vs)"
  by (induction vs arbitrary: acc) auto

lemma End_facts: "agentNoticeEnd \<noteq> []" "CHR ''\<newline>'' \<notin> set agentNoticeEnd"
  by (simp_all add: agentNoticeEnd_def)

lemma Start_facts: "agentNoticeStart \<noteq> []" "CHR ''\<newline>'' \<notin> set agentNoticeStart"
  by (simp_all add: agentNoticeStart_def robot_def)

lemma count_occ_bullets_End:
  "\<forall>v \<in> set vs. \<not> Contains v agentNoticeEnd \<Longrightarrow>
   count_occ (concat (map (\<lambda>v. ''- '' @ v @ ''\<newline>'') vs)) agentNoticeEnd = 0"
proof (induction vs)
  case Nil
  then show ?case by (simp add: agentNoticeEnd_def)
next
  case (Cons v vs)
  from Cons.prems have v0: "count_occ v agentNoticeEnd = 0"
    by (simp add: count_occ_zero_iff[OF End_facts(1)])
  from Cons have r0: "count_occ (concat (map (\<lambda>v. ''- '' @ v @ ''\<newline>'') vs)) agentNoticeEnd = 0"
    by simp
  have "count_occ (v @ CHR ''\<newline>'' # concat (map (\<lambda>v. ''- '' @ v @ ''\<newline>'') vs)) agentNoticeEnd = 0"
    using count_occ_sep[OF End_facts(2) End_facts(1)] v0 r0 by simp
  then show ?case by (simp add: agentNoticeEnd_def)
qed

lemma count_occ_bullets_Start:
  "\<forall>v \<in> set vs. \<not> Contains v agentNoticeStart \<Longrightarrow>
   count_occ (concat (map (\<lambda>v. ''- '' @ v @ ''\<newline>'') vs)) agentNoticeStart = 0"
proof (induction vs)
  case Nil
  then show ?case by (simp add: agentNoticeStart_def)
next
  case (Cons v vs)
  from Cons.prems have v0: "count_occ v agentNoticeStart = 0"
    by (simp add: count_occ_zero_iff[OF Start_facts(1)])
  from Cons have r0: "count_occ (concat (map (\<lambda>v. ''- '' @ v @ ''\<newline>'') vs)) agentNoticeStart = 0"
    by simp
  have "count_occ (v @ CHR ''\<newline>'' # concat (map (\<lambda>v. ''- '' @ v @ ''\<newline>'') vs)) agentNoticeStart = 0"
    using count_occ_sep[OF Start_facts(2) Start_facts(1)] v0 r0 by simp
  then show ?case by (simp add: agentNoticeStart_def)
qed

lemma modificationNotice_split:
  "modificationNotice agentNoticeStart vl agentNoticeEnd f c =
   notice_head vl @ agentNoticeEnd @ (''\<newline>\<newline>'' @ notice_rest f c)"
  by (simp add: modificationNotice_def notice_head_def notice_rest_def)

lemma notice_head_no_End:
  assumes "count_occ vl agentNoticeEnd = 0"
  shows "\<not> Contains (notice_head vl @ butlast agentNoticeEnd) agentNoticeEnd"
proof -
  note sep = count_occ_sep[OF End_facts(2) End_facts(1), unfolded agentNoticeEnd_def]
  have "count_occ (notice_head vl @ butlast agentNoticeEnd) agentNoticeEnd = 0"
    using assms unfolding agentNoticeEnd_def notice_head_def agentNoticeStart_def robot_def
    by (simp add: sep)
  then show ?thesis by (simp add: count_occ_zero_iff[OF End_facts(1)])
qed

lemma notice_head_prefix:
  "notice_head vl = agentNoticeStart @ drop (length agentNoticeStart) (notice_head vl)"
  by (simp add: notice_head_def)

lemma notice_rest_trim:
  "TrimLeft (''\<newline>\<newline>'' @ notice_rest f c) ''\<newline>'' = notice_rest f c"
  by (simp add: notice_rest_def TrimLeft_def)

lemma remove_notice_of_merge:
  assumes "\<forall>v \<in> set vA. \<not> Contains v agentNoticeEnd"
  shows "removeExistingAgentNotice
           (modificationNotice agentNoticeStart (violationsList_loop vA []) agentNoticeEnd fixA c0)
           agentNoticeStart agentNoticeEnd
         = notice_rest fixA c0"
proof -
  define vl where "vl = violationsList_loop vA []"
  define X where "X = notice_head vl"
  define Y where "Y = ''\<newline>\<newline>'' @ notice_rest fixA c0"
  define body where "body = X @ agentNoticeEnd @ Y"
  note ne = End_facts(1) and ns = Start_facts(1)
  have body_eq: "modificationNotice agentNoticeStart vl agentNoticeEnd fixA c0 = body"
    by (simp add: modificationNotice_split body_def X_def Y_def)
  have "count_occ vl agentNoticeEnd = 0"
    using count_occ_bullets_End[OF assms] by (simp add: vl_def violationsList_loop_eq)
  then have "\<not> Contains (X @ butlast agentNoticeEnd) agentNoticeEnd"
    unfolding X_def by (rule notice_head_no_End)
  then have iend: "Index body agentNoticeEnd = int (length X)"
    unfolding body_def by (rule Index_first[OF ne])
  have "body = agentNoticeStart @ (drop (length agentNoticeStart) X @ agentNoticeEnd @ Y)"
    unfolding body_def X_def using notice_head_prefix[of vl] by (metis append.assoc)
  then have istart: "Index body agentNoticeStart = 0"
    using Index_prefix[OF ns] by metis
  have d: "drop (nat (int (length X) + (0 + int (length agentNoticeEnd)))) body = Y"
    by (simp add: body_def nat_add_distrib)
  have "removeExistingAgentNotice body agentNoticeStart agentNoticeEnd = notice_rest fixA c0"
    unfolding removeExistingAgentNotice_def Let_def istart
    using iend d notice_rest_trim[of fixA c0]
    by (simp add: TrimRight_def Y_def)
  then show ?thesis using body_eq by (simp add: vl_def)
qed

lemma remove_notice_absent:
  "\<not> Contains body startMarker \<Longrightarrow> removeExistingAgentNotice body startMarker endMarker = body"
  using Index_range[of body startMarker]
  by (auto simp: removeExistingAgentNotice_def Contains_def Let_def)

lemma merge_twice_eq:
  assumes "\<forall>v \<in> set vA. \<not> Contains v agentNoticeEnd"
  shows "preserveOriginalWithModifications (preserveOriginalWithModifications orig fixA vA) fixB vB =
         modificationNotice agentNoticeStart (violationsList_loop vB []) agentNoticeEnd fixB
           (notice_rest fixA (removeExistingAgentNotice orig agentNoticeStart agentNoticeEnd))"
  using remove_notice_of_merge[OF assms]
  by (simp add: preserveOriginalWithModifications_def Let_def)

lemma count_Start_notice:
  assumes "count_occ vl agentNoticeStart = 0" "count_occ f agentNoticeStart = 0"
    "count_occ c agentNoticeStart = 0"
  shows "count_occ (modificationNotice agentNoticeStart vl agentNoticeEnd f c) agentNoticeStart = 1"
proof -
  note sep = count_occ_sep[OF Start_facts(2) Start_facts(1), unfolded agentNoticeStart_def robot_def append.simps]
  show ?thesis
    using assms
    unfolding modificationNotice_def agentNoticeEnd_def agentNoticeStart_def robot_def clipboard_def
    by (simp add: sep)
qed

lemma count_End_notice:
  assumes "count_occ vl agentNoticeEnd = 0" "count_occ f agentNoticeEnd = 0"
    "count_occ c agentNoticeEnd = 0"
  shows "count_occ (modificationNotice agentNoticeStart vl agentNoticeEnd f c) agentNoticeEnd = 1"
proof -
  note sep = count_occ_sep[OF End_facts(2) End_facts(1), unfolded agentNoticeEnd_def]
  show ?thesis
    using assms
    unfolding modificationNotice_def agentNoticeEnd_def agentNoticeStart_def robot_def clipboard_def
    by (simp add: sep)
qed

lemma count_Start_rest:
  assumes "count_occ f agentNoticeStart = 0" "count_occ c agentNoticeStart = 0"
  shows "count_occ (notice_rest f c) agentNoticeStart = 0"
proof -
  note sep = count_occ_sep[OF Start_facts(2) Start_facts(1), unfolded agentNoticeStart_def robot_def append.simps]
  show ?thesis
    using assms unfolding notice_rest_def agentNoticeStart_def robot_def clipboard_def
    by (simp add: sep)
qed

lemma count_End_rest:
  assumes "count_occ f agentNoticeEnd = 0" "count_occ c agentNoticeEnd = 0"
  shows "count_occ (notice_rest f c) agentNoticeEnd = 0"
proof -
  note sep = count_occ_sep[OF End_facts(2) End_facts(1), unfolded agentNoticeEnd_def]
  show ?thesis
    using assms unfolding notice_rest_def agentNoticeEnd_def clipboard_def
    by (simp add: sep)
qed

lemma marker_free_counts:
  "marker_free s \<longleftrightarrow> count_occ s agentNoticeStart = 0 \<and> count_occ s agentNoticeEnd = 0"
  by (simp add: marker_free_def count_occ_zero_iff[OF Start_facts(1)] count_occ_zero_iff[OF End_facts(1)])

text \<open>
  C3 (amended). Merging a merged body again removes the notice block of the first merge
  before the new one is added, when no violation of the first merge contains the end
  marker: the result is the notice for \<open>vB\<close> around \<open>fixB\<close>, and the text it preserves is
  what the first merge wrote after its notice block, \<open>notice_rest fixA\<close> of the cleaned
  original (the first fix and the wrapped original), not the original alone. When none
  of the texts and violations contains a marker, the result has exactly one start marker
  and one end marker.
\<close>

theorem merge_twice:
  "((\<forall>v \<in> set vA. \<not> Contains v agentNoticeEnd) \<longrightarrow>
      preserveOriginalWithModifications (preserveOriginalWithModifications orig fixA vA) fixB vB =
      modificationNotice agentNoticeStart (violationsList_loop vB []) agentNoticeEnd fixB
        (notice_rest fixA (removeExistingAgentNotice orig agentNoticeStart agentNoticeEnd))) \<and>
   ((\<forall>v \<in> set vA. marker_free v) \<and> (\<forall>v \<in> set vB. marker_free v) \<and>
    marker_free orig \<and> marker_free fixA \<and> marker_free fixB \<longrightarrow>
      preserveOriginalWithModifications (preserveOriginalWithModifications orig fixA vA) fixB vB =
      modificationNotice agentNoticeStart (violationsList_loop vB []) agentNoticeEnd fixB
        (notice_rest fixA orig) \<and>
      count_occ
        (preserveOriginalWithModifications (preserveOriginalWithModifications orig fixA vA) fixB vB)
        agentNoticeStart = 1 \<and>
      count_occ
        (preserveOriginalWithModifications (preserveOriginalWithModifications orig fixA vA) fixB vB)
        agentNoticeEnd = 1)"
proof (intro conjI impI)
  assume "\<forall>v \<in> set vA. \<not> Contains v agentNoticeEnd"
  then show "preserveOriginalWithModifications (preserveOriginalWithModifications orig fixA vA) fixB vB =
      modificationNotice agentNoticeStart (violationsList_loop vB []) agentNoticeEnd fixB
        (notice_rest fixA (removeExistingAgentNotice orig agentNoticeStart agentNoticeEnd))"
    by (rule merge_twice_eq)
next
  assume h: "(\<forall>v \<in> set vA. marker_free v) \<and> (\<forall>v \<in> set vB. marker_free v) \<and>
    marker_free orig \<and> marker_free fixA \<and> marker_free fixB"
  then have vA: "\<forall>v \<in> set vA. \<not> Contains v agentNoticeEnd" by (simp add: marker_free_def)
  from h have o: "removeExistingAgentNotice orig agentNoticeStart agentNoticeEnd = orig"
    by (simp add: marker_free_def remove_notice_absent)
  have eq: "preserveOriginalWithModifications (preserveOriginalWithModifications orig fixA vA) fixB vB =
      modificationNotice agentNoticeStart (violationsList_loop vB []) agentNoticeEnd fixB
        (notice_rest fixA orig)"
    using merge_twice_eq[OF vA, of orig fixA fixB vB] o by simp
  from h have vlS: "count_occ (violationsList_loop vB []) agentNoticeStart = 0"
    using count_occ_bullets_Start[of vB] by (simp add: violationsList_loop_eq marker_free_def)
  from h have vlE: "count_occ (violationsList_loop vB []) agentNoticeEnd = 0"
    using count_occ_bullets_End[of vB] by (simp add: violationsList_loop_eq marker_free_def)
  from h have rS: "count_occ (notice_rest fixA orig) agentNoticeStart = 0"
    by (intro count_Start_rest) (simp_all add: marker_free_counts)
  from h have rE: "count_occ (notice_rest fixA orig) agentNoticeEnd = 0"
    by (intro count_End_rest) (simp_all add: marker_free_counts)
  from h have fS: "count_occ fixB agentNoticeStart = 0" and fE: "count_occ fixB agentNoticeEnd = 0"
    by (simp_all add: marker_free_counts)
  show "preserveOriginalWithModifications (preserveOriginalWithModifications orig fixA vA) fixB vB =
      modificationNotice agentNoticeStart (violationsList_loop vB []) agentNoticeEnd fixB
        (notice_rest fixA orig)" by (rule eq)
  show "count_occ
        (preserveOriginalWithModifications (preserveOriginalWithModifications orig fixA vA) fixB vB)
        agentNoticeStart = 1"
    unfolding eq by (rule count_Start_notice[OF vlS fS rS])
  show "count_occ
        (preserveOriginalWithModifications (preserveOriginalWithModifications orig fixA vA) fixB vB)
        agentNoticeEnd = 1"
    unfolding eq by (rule count_End_notice[OF vlE fE rE])
qed

lemma marker_free_small:
  "marker_free ''x''" "marker_free ''a''" "marker_free ''b''" "marker_free ''v''" "marker_free ''w''"
  by (simp_all add: marker_free_def Contains_def agentNoticeStart_def agentNoticeEnd_def robot_def)

theorem merge_twice_witness:
  "preserveOriginalWithModifications (preserveOriginalWithModifications ''x'' ''a'' [''v'']) ''b'' [''w''] =
     modificationNotice agentNoticeStart (violationsList_loop [''w''] []) agentNoticeEnd ''b''
       (notice_rest ''a'' ''x'') \<and>
   count_occ
     (preserveOriginalWithModifications (preserveOriginalWithModifications ''x'' ''a'' [''v'']) ''b'' [''w''])
     agentNoticeStart = 1 \<and>
   count_occ
     (preserveOriginalWithModifications (preserveOriginalWithModifications ''x'' ''a'' [''v'']) ''b'' [''w''])
     agentNoticeEnd = 1"
proof -
  have h: "(\<forall>v \<in> set [''v'']. marker_free v) \<and> (\<forall>v \<in> set [''w'']. marker_free v) \<and>
    marker_free ''x'' \<and> marker_free ''a'' \<and> marker_free ''b''"
    using marker_free_small by simp
  from merge_twice[of "[''v'']" "''x''" "''a''" "''b''" "[''w'']", THEN conjunct2] h
  show ?thesis by (rule mp)
qed

text \<open>
  The claim as stated fails: after two merges the preserved text is not the original
  \<open>x\<close>, so the result is not the notice around \<open>b\<close> that preserves \<open>x\<close>.
\<close>

theorem merge_twice_counterexample:
  "preserveOriginalWithModifications (preserveOriginalWithModifications ''x'' ''a'' [''v'']) ''b'' [''w''] \<noteq>
   modificationNotice agentNoticeStart (violationsList_loop [''w''] []) agentNoticeEnd ''b'' ''x''"
proof -
  have v: "\<forall>v \<in> set [''v'']. \<not> Contains v agentNoticeEnd"
    using marker_free_small by (simp add: marker_free_def)
  have o: "removeExistingAgentNotice ''x'' agentNoticeStart agentNoticeEnd = ''x''"
    using marker_free_small by (simp add: marker_free_def remove_notice_absent)
  have "notice_rest ''a'' ''x'' \<noteq> ''x''" by (simp add: notice_rest_def)
  then have "modificationNotice agentNoticeStart (violationsList_loop [''w''] []) agentNoticeEnd ''b''
               (notice_rest ''a'' ''x'') \<noteq>
             modificationNotice agentNoticeStart (violationsList_loop [''w''] []) agentNoticeEnd ''b'' ''x''"
    by (simp add: modificationNotice_def)
  then show ?thesis using merge_twice_eq[OF v, of "''x''" "''a''" "''b''" "[''w'']"] o by simp
qed

text \<open>
  C4 (amended). When the start marker occurs in the body and the end marker does not
  occur from its first occurrence on, the removal of the notice returns the body as it
  is, and the merge preserves that whole body, dangling start marker included, as the
  original content inside the new text.
\<close>

theorem malformed_notice_kept:
  assumes "Contains body agentNoticeStart"
    and "\<not> Contains (drop (nat (Index body agentNoticeStart)) body) agentNoticeEnd"
  shows "removeExistingAgentNotice body agentNoticeStart agentNoticeEnd = body \<and>
         preserveOriginalWithModifications body fixedBody violations =
           modificationNotice agentNoticeStart (violationsList_loop violations []) agentNoticeEnd
             fixedBody body"
proof -
  from assms(2) have "Index (drop (nat (Index body agentNoticeStart)) body) agentNoticeEnd = - 1"
    using Index_range[of "drop (nat (Index body agentNoticeStart)) body" agentNoticeEnd]
    by (auto simp: Contains_def)
  then have "removeExistingAgentNotice body agentNoticeStart agentNoticeEnd = body"
    by (simp add: removeExistingAgentNotice_def Let_def)
  then show ?thesis by (simp add: preserveOriginalWithModifications_def Let_def)
qed

theorem malformed_notice_kept_witness:
  "removeExistingAgentNotice (''Content\<newline>'' @ agentNoticeStart @ ''\<newline>Notice'')
     agentNoticeStart agentNoticeEnd = ''Content\<newline>'' @ agentNoticeStart @ ''\<newline>Notice'' \<and>
   preserveOriginalWithModifications (''Content\<newline>'' @ agentNoticeStart @ ''\<newline>Notice'') ''f'' [] =
     modificationNotice agentNoticeStart [] agentNoticeEnd ''f''
       (''Content\<newline>'' @ agentNoticeStart @ ''\<newline>Notice'')"
proof -
  let ?b = "''Content\<newline>'' @ agentNoticeStart @ ''\<newline>Notice''"
  have a: "Contains ?b agentNoticeStart" unfolding Contains_iff by blast
  have nl: "CHR ''\<newline>'' \<notin> set agentNoticeEnd" by (simp add: agentNoticeEnd_def)
  have "count_occ ?b agentNoticeEnd = 0"
    by (simp add: agentNoticeStart_def agentNoticeEnd_def robot_def)
  then have "\<not> Contains ?b agentNoticeEnd"
    using count_occ_zero_iff[OF End_facts(1), of ?b] by blast
  then have "\<not> Contains (drop (nat (Index ?b agentNoticeStart)) ?b) agentNoticeEnd"
    unfolding Contains_iff by (metis append_take_drop_id append.assoc)
  from malformed_notice_kept[OF a this, of "''f''" "[]"] show ?thesis by simp
qed

text \<open>
  The claim as stated fails: the merge of a body with a dangling start marker is not that
  body, it is the new notice and the fixed text followed by that body.
\<close>

theorem malformed_notice_counterexample:
  "Contains agentNoticeStart agentNoticeStart \<and>
   \<not> Contains (drop (nat (Index agentNoticeStart agentNoticeStart)) agentNoticeStart) agentNoticeEnd \<and>
   preserveOriginalWithModifications agentNoticeStart ''f'' [] \<noteq> agentNoticeStart"
proof -
  have i: "Index agentNoticeStart agentNoticeStart = 0"
    using Index_prefix[OF Start_facts(1), of "[]"] by simp
  have "count_occ agentNoticeStart agentNoticeEnd = 0"
    by (simp add: agentNoticeStart_def agentNoticeEnd_def robot_def)
  then have n: "\<not> Contains agentNoticeStart agentNoticeEnd"
    using count_occ_zero_iff[OF End_facts(1), of agentNoticeStart] by blast
  have "length (preserveOriginalWithModifications agentNoticeStart ''f'' []) > length agentNoticeStart"
    by (simp add: preserveOriginalWithModifications_def modificationNotice_def Let_def)
  then have "preserveOriginalWithModifications agentNoticeStart ''f'' [] \<noteq> agentNoticeStart" by auto
  with i n show ?thesis by (simp add: Contains_def)
qed

section \<open>The validation workflow\<close>

lemma Prompt_effect:
  assumes "Prompt E p w = (r, w1)"
  shows "w1 = record_call (PromptCall p) (case r of Inl e \<Rightarrow> Some e | Inr t \<Rightarrow> None) w"
  using assms by (auto simp: Prompt_def Let_def split: option.splits)

lemma UpdateIssue_effect:
  assumes "UpdateIssue E ow rp n t b w = (res, w1)"
  shows "w1 = record_call (UpdateIssueCall ow rp n t b) res
           (if res = None
            then w\<lparr>store_issues :=
                     map (\<lambda>i. if Number i = n then edit_issue t b i else i) (store_issues w)\<rparr>
            else w)"
  using assms by (auto simp: UpdateIssue_def Let_def split: option.splits if_splits)

lemma AddComment_effect:
  assumes "AddComment E ow rp n c w = (res, w1)"
  shows "w1 = record_call (AddCommentCall ow rp n c) res
           (if res = None then w\<lparr>store_comments := store_comments w @ [(n, c)]\<rparr> else w)"
  using assms by (auto simp: AddComment_def Let_def split: option.splits if_splits)

lemma AddLabel_effect:
  assumes "AddLabel E ow rp n l w = (res, w1)"
  shows "w1 = record_call (AddLabelCall ow rp n l) res
           (if res = None
            then w\<lparr>store_issues :=
                     map (\<lambda>i. if Number i = n then add_label l i else i) (store_issues w)\<rparr>
            else w)"
  using assms by (auto simp: AddLabel_def Let_def split: option.splits if_splits)

lemma GetIssue_effect:
  assumes "GetIssue E ow rp n w = (r, w1)"
  shows "w1 = record_call (GetIssueCall ow rp n) (case r of Inl e \<Rightarrow> Some e | Inr i \<Rightarrow> None) w"
  using assms by (auto simp: GetIssue_def Let_def split: option.splits)

lemma ListIssues_effect:
  assumes "ListIssues E st w = (r, w1)"
  shows "w1 = record_call (ListIssuesCall st) (case r of Inl e \<Rightarrow> Some e | Inr i \<Rightarrow> None) w"
  using assms by (auto simp: ListIssues_def Let_def split: option.splits)

lemma fixWithLLM_effect:
  assumes "fixWithLLM E v issue vs w = (r, w1)"
  shows "\<exists>p. w1 = record_call (PromptCall p) (case r of Inl e \<Rightarrow> Some e | Inr t \<Rightarrow> None) w"
  using assms unfolding fixWithLLM_def Let_def
  by (auto split: prod.splits sum.splits dest!: Prompt_effect)

text \<open>The four ways \<open>ValidateAndFix\<close> can end.\<close>

lemma ValidateAndFix_cases:
  assumes "ValidateAndFix E v issue w = (res, w')"
  shows
    "(checkFormat (lower_table E) (rules v) issue = [] \<and> res = (True, [], None) \<and> w' = w) \<or>
     (checkFormat (lower_table E) (rules v) issue \<noteq> [] \<and>
      (\<exists>p e. res = (False, [], Some (''failed to fix with LLM: '' @ e)) \<and>
             w' = record_call (PromptCall p) (Some e) w)) \<or>
     (checkFormat (lower_table E) (rules v) issue \<noteq> [] \<and>
      (\<exists>p fixedBody e.
         res = (False, [], Some (''failed to update issue: '' @ e)) \<and>
         w' = record_call
                (UpdateIssueCall (fst (agent_extractRepoFromURL (URL issue)))
                   (snd (agent_extractRepoFromURL (URL issue))) (Number issue) None
                   (Some (preserveOriginalWithModifications (Body issue) fixedBody
                            (checkFormat (lower_table E) (rules v) issue))))
                (Some e) (record_call (PromptCall p) None w))) \<or>
     (checkFormat (lower_table E) (rules v) issue \<noteq> [] \<and>
      (\<exists>p fixedBody ce.
         res = (False, fixed_comment (checkFormat (lower_table E) (rules v) issue), None) \<and>
         call_log w' = call_log w @
           [(PromptCall p, None),
            (UpdateIssueCall (fst (agent_extractRepoFromURL (URL issue)))
               (snd (agent_extractRepoFromURL (URL issue))) (Number issue) None
               (Some (preserveOriginalWithModifications (Body issue) fixedBody
                        (checkFormat (lower_table E) (rules v) issue))), None),
            (AddCommentCall (fst (agent_extractRepoFromURL (URL issue)))
               (snd (agent_extractRepoFromURL (URL issue))) (Number issue)
               (fixed_comment (checkFormat (lower_table E) (rules v) issue)), ce)] \<and>
         store_issues w' =
           map (\<lambda>i. if Number i = Number issue
                     then edit_issue None
                            (Some (preserveOriginalWithModifications (Body issue) fixedBody
                                     (checkFormat (lower_table E) (rules v) issue))) i
                     else i)
             (store_issues w)))"
proof (cases "checkFormat (lower_table E) (rules v) issue = []")
  case True
  with assms show ?thesis by (simp add: ValidateAndFix_def)
next
  case False
  obtain r w1 where f: "fixWithLLM E v issue (checkFormat (lower_table E) (rules v) issue) w = (r, w1)"
    by (cases "fixWithLLM E v issue (checkFormat (lower_table E) (rules v) issue) w")
  from fixWithLLM_effect[OF f] obtain p where
    w1: "w1 = record_call (PromptCall p) (case r of Inl e \<Rightarrow> Some e | Inr t \<Rightarrow> None) w" by blast
  show ?thesis
  proof (cases r)
    case (Inl e)
    with assms False f w1 show ?thesis by (auto simp: ValidateAndFix_def Let_def)
  next
    case (Inr fixedBody)
    let ?b = "preserveOriginalWithModifications (Body issue) fixedBody (checkFormat (lower_table E) (rules v) issue)"
    let ?o = "fst (agent_extractRepoFromURL (URL issue))"
    let ?r = "snd (agent_extractRepoFromURL (URL issue))"
    obtain ue w2 where u: "UpdateIssue E ?o ?r (Number issue) None (Some ?b) w1 = (ue, w2)"
      by (cases "UpdateIssue E ?o ?r (Number issue) None (Some ?b) w1")
    note ueff = UpdateIssue_effect[OF u]
    show ?thesis
    proof (cases ue)
      case (Some e)
      with assms False f Inr u ueff w1 have
        "res = (False, [], Some (''failed to update issue: '' @ e)) \<and>
         w' = record_call (UpdateIssueCall ?o ?r (Number issue) None (Some ?b)) (Some e)
                (record_call (PromptCall p) None w)"
        by (auto simp: ValidateAndFix_def Let_def split: prod.splits)
      with False show ?thesis by blast
    next
      case None
      let ?c = "fixed_comment (checkFormat (lower_table E) (rules v) issue)"
      obtain ce w3 where c: "AddComment E ?o ?r (Number issue) ?c w2 = (ce, w3)"
        by (cases "AddComment E ?o ?r (Number issue) ?c w2")
      note ceff = AddComment_effect[OF c]
      from assms False f Inr u None c have
        res: "res = (False, ?c, None)" and
        w': "w' = (case ce of None \<Rightarrow> (\<lambda>x. x)
               | Some e \<Rightarrow> Printf (''Warning: failed to add comment: '' @ e @ ''\<newline>'')) w3"
        by (auto simp: ValidateAndFix_def Let_def split: prod.splits option.splits)
      have w2_eq: "w2 = record_call (UpdateIssueCall ?o ?r (Number issue) None (Some ?b)) None
                    ((record_call (PromptCall p) None w)
                      \<lparr>store_issues :=
                         map (\<lambda>i. if Number i = Number issue then edit_issue None (Some ?b) i else i)
                           (store_issues w)\<rparr>)"
        using ueff None w1 Inr by (simp add: record_call_def)
      have w3: "call_log w3 = call_log w2 @ [(AddCommentCall ?o ?r (Number issue) ?c, ce)]"
        "store_issues w3 = store_issues w2"
        using ceff by (cases ce; simp add: record_call_def)+
      have "call_log w' = call_log w @
           [(PromptCall p, None),
            (UpdateIssueCall ?o ?r (Number issue) None (Some ?b), None),
            (AddCommentCall ?o ?r (Number issue) ?c, ce)]"
        using w' w3 w2_eq by (cases ce) (simp_all add: Printf_def record_call_def)
      moreover have "store_issues w' =
           map (\<lambda>i. if Number i = Number issue then edit_issue None (Some ?b) i else i)
             (store_issues w)"
        using w' w3 w2_eq by (cases ce) (simp_all add: Printf_def record_call_def)
      ultimately show ?thesis using res False by blast
    qed
  qed
qed


text \<open>
  C8. When \<open>checkFormat\<close> finds no violation, \<open>ValidateAndFix\<close> returns \<open>(true, "", nil)\<close>
  and leaves the world as it is: no call to the model or to the issue store is logged, the
  issues, the comments and the output are unchanged.
\<close>

theorem valid_issue_untouched:
  "checkFormat (lower_table E) (rules v) issue = [] \<Longrightarrow> ValidateAndFix E v issue w = ((True, [], None), w)"
  by (simp add: ValidateAndFix_def)

lemma valid_issue_example:
  "checkFormat tbl small_rules (issue0\<lparr>Body := ''My GOAL'', Labels := [''bug'', ''p:1'']\<rparr>) = []"
  by (simp add: checkFormat_def small_rules_def issue0_def Contains_def ToLower_eval)

theorem valid_issue_untouched_witness:
  "ValidateAndFix quiet_env \<lparr>rules = small_rules, guidelines = None, promptLoader = None\<rparr>
     (issue0\<lparr>Body := ''My GOAL'', Labels := [''bug'', ''p:1'']\<rparr>) world0 =
   ((True, [], None), world0)"
  using valid_issue_untouched[where E = quiet_env
          and v = "\<lparr>rules = small_rules, guidelines = None, promptLoader = None\<rparr>"
          and issue = "issue0\<lparr>Body := ''My GOAL'', Labels := [''bug'', ''p:1'']\<rparr>"
          and w = world0]
        valid_issue_example[of "lower_table quiet_env"]
  by simp

text \<open>
  C9. When a run of \<open>ValidateAndFix\<close> logs a completion that succeeded, an update of the
  issue that succeeded and then a comment that failed, it returns \<open>(false, comment, nil)\<close>
  with the comment it tried to post, and the issue keeps the body written by the update.
\<close>

theorem comment_failure_swallowed:
  assumes "ValidateAndFix E v issue w = (res, w')"
    and "call_log w' = call_log w @
           [(PromptCall p, None),
            (UpdateIssueCall ow rp n t (Some b), None),
            (AddCommentCall ow' rp' n' c, Some err)]"
  shows "res = (False, c, None) \<and>
         c = fixed_comment (checkFormat (lower_table E) (rules v) issue) \<and>
         n = Number issue \<and> n' = Number issue \<and>
         store_issues w' =
           map (\<lambda>i. if Number i = Number issue then i\<lparr>Body := b\<rparr> else i) (store_issues w)"
  using ValidateAndFix_cases[OF assms(1)] assms(2)
  by (elim disjE conjE exE)
     (auto simp: record_call_def Printf_def edit_issue_def split: option.splits)

lemma len_rules_violation: "checkFormat tbl len_rules issue0 = [too_short_msg 10]"
  by (simp add: checkFormat_def len_rules_def issue0_def)

lemma comment_fail_run:
  "ValidateAndFix comment_fail_env validator0 issue0 world0 =
     ((False, fixed_comment [too_short_msg 10], None),
      \<lparr>store_issues =
         [issue0\<lparr>Body := preserveOriginalWithModifications ''short'' ''fixed'' [too_short_msg 10]\<rparr>],
       store_comments = [],
       call_log =
         [(PromptCall (validator_fallback_prompt validator0 issue0 [too_short_msg 10]), None),
          (UpdateIssueCall [] [] 1 None
             (Some (preserveOriginalWithModifications ''short'' ''fixed'' [too_short_msg 10])), None),
          (AddCommentCall [] [] 1 (fixed_comment [too_short_msg 10]), Some ''boom'')],
       stdout_log = [''Warning: failed to add comment: boom\<newline>'']\<rparr>)"
proof -
  have p: "validator_fallback_prompt validator0 issue0 [too_short_msg 10] \<noteq> []"
    by (simp add: validator_fallback_prompt_def)
  have u: "agent_extractRepoFromURL (URL issue0) = ([], [])"
    by (simp add: agent_extractRepoFromURL_def issue0_def Split.simps)
  have t: "TrimSpace ''fixed'' = ''fixed''" by (rule TrimSpace_fixed)
  have f: "fixWithLLM comment_fail_env validator0 issue0 [too_short_msg 10] world0 =
           (Inr ''fixed'',
            world0\<lparr>call_log :=
              [(PromptCall (validator_fallback_prompt validator0 issue0 [too_short_msg 10]), None)]\<rparr>)"
    using p t
    by (simp add: fixWithLLM_def Prompt_def record_call_def comment_fail_env_def quiet_env_def
          world0_def Let_def) (simp add: validator0_def)
  have b: "Body issue0 = ''short''" "Number issue0 = 1" by (simp_all add: issue0_def)
  show ?thesis
    unfolding ValidateAndFix_def
    using len_rules_violation f u b
    by (simp add: validator0_def UpdateIssue_def AddComment_def record_call_def Printf_def
          comment_fail_env_def quiet_env_def world0_def edit_issue_def Let_def)
qed

theorem comment_failure_swallowed_witness:
  "fst (ValidateAndFix comment_fail_env validator0 issue0 world0) =
     (False, fixed_comment [too_short_msg 10], None) \<and>
   store_issues (snd (ValidateAndFix comment_fail_env validator0 issue0 world0)) =
     [issue0\<lparr>Body := preserveOriginalWithModifications ''short'' ''fixed'' [too_short_msg 10]\<rparr>]"
proof -
  note r = comment_fail_run
  have l: "call_log (snd (ValidateAndFix comment_fail_env validator0 issue0 world0)) =
        call_log world0 @
         [(PromptCall (validator_fallback_prompt validator0 issue0 [too_short_msg 10]), None),
          (UpdateIssueCall [] [] 1 None
             (Some (preserveOriginalWithModifications ''short'' ''fixed'' [too_short_msg 10])), None),
          (AddCommentCall [] [] 1 (fixed_comment [too_short_msg 10]), Some ''boom'')]"
    unfolding r by (simp add: world0_def)
  have pr: "ValidateAndFix comment_fail_env validator0 issue0 world0 =
        (fst (ValidateAndFix comment_fail_env validator0 issue0 world0),
         snd (ValidateAndFix comment_fail_env validator0 issue0 world0))" by simp
  from comment_failure_swallowed[OF pr l]
  show ?thesis by (simp add: world0_def issue0_def)
qed

section \<open>The generic executor\<close>

lemma extractIssueNumber_absent:
  "\<not> positive_issue_number (float_overflow E) (params ''issue_number'') \<Longrightarrow>
   \<not> positive_issue_number (float_overflow E) (params ''issue'') \<Longrightarrow>
   extractIssueNumber (float_overflow E) params = (0, False)"
  by (auto simp: extractIssueNumber_def positive_issue_number_def split: option.splits any.splits)

lemma extractIssueNumber_present:
  "positive_issue_number (float_overflow E) (params ''issue_number'') \<or> positive_issue_number (float_overflow E) (params ''issue'') \<Longrightarrow>
   snd (extractIssueNumber (float_overflow E) params) \<and> fst (extractIssueNumber (float_overflow E) params) > 0"
  by (auto simp: extractIssueNumber_def positive_issue_number_def split: option.splits any.splits)

lemma action_step_no_issue:
  "action_step E e agent params issueNum False action st w = (Inr st, w)"
  by (cases st)
     (simp add: action_step_def length_check_block_def generate_block_def comment_block_def Let_def)

lemma actions_loop_no_issue:
  "actions_loop E e agent params issueNum False actions st w = (Inr st, w)"
  by (induction actions) (simp_all add: action_step_no_issue)

text \<open>
  C10. When \<open>params\<close> holds no positive issue number (under \<open>issue_number\<close> or \<open>issue\<close>, as
  an \<open>int\<close> or a \<open>float64\<close>, the latter converted as \<open>int(f)\<close> converts it; zero and
  negative values count as absent), \<open>executeGeneric\<close>,
  whatever the action phrases match, returns the initial result with status \<open>executed\<close> and
  the message "executed with N actions", and leaves the world as it is: no call to the
  issue store or to the model. \<open>Execute\<close> is this run for every agent it sends to the
  generic executor.
\<close>

theorem no_issue_number_no_effect:
  assumes "\<not> positive_issue_number (float_overflow E) (params ''issue_number'')"
    and "\<not> positive_issue_number (float_overflow E) (params ''issue'')"
  shows "executeGeneric E e agent params w =
           (Returned [''agent'' \<mapsto> AnyString (Name agent),
                      ''type'' \<mapsto> AnyString (Type agent),
                      ''status'' \<mapsto> AnyString ''executed'',
                      ''actions'' \<mapsto> AnyStrings (Actions agent),
                      ''message'' \<mapsto> AnyString (executed_message agent)], w) \<and>
         (select_executor (lower_table E) agent = GenericExecutor \<longrightarrow>
            Execute E e agent params w = Some (executeGeneric E e agent params w))"
  using extractIssueNumber_absent[OF assms]
  by (simp add: executeGeneric_def actions_loop_no_issue initial_result_def Execute_def)

lemma summarizer_generic: "select_executor tbl summarizer = GenericExecutor"
  by (simp add: select_executor_def summarizer_def ToLower_eval Contains_def Let_def)

theorem no_issue_number_no_effect_witness:
  "Execute quiet_env executor0 summarizer params_zero world60 =
   Some (Returned [''agent'' \<mapsto> AnyString (Name summarizer),
                   ''type'' \<mapsto> AnyString (Type summarizer),
                   ''status'' \<mapsto> AnyString ''executed'',
                   ''actions'' \<mapsto> AnyStrings (Actions summarizer),
                   ''message'' \<mapsto> AnyString (executed_message summarizer)], world60)"
proof -
  have a: "\<not> positive_issue_number (float_overflow quiet_env) (params_zero ''issue_number'')"
    by (simp add: positive_issue_number_def params_zero_def)
  have b: "\<not> positive_issue_number (float_overflow quiet_env) (params_zero ''issue'')"
    by (simp add: positive_issue_number_def int_of_float_def params_zero_def)
  from no_issue_number_no_effect[OF a b, where e = executor0 and agent = summarizer and w = world60]
    summarizer_generic[of "lower_table quiet_env"]
  show ?thesis by simp
qed

lemma actions_loop_append:
  "actions_loop E e agent params issueNum hasIssue (pre @ post) st w =
     (case actions_loop E e agent params issueNum hasIssue pre st w of
        (Inl out, w1) \<Rightarrow> (Inl out, w1)
      | (Inr st1, w1) \<Rightarrow> actions_loop E e agent params issueNum hasIssue post st1 w1)"
  by (induction pre arbitrary: st w) (auto split: prod.splits sum.splits)

lemma fetch_issue_effect:
  assumes "fetch_issue E issueNum issue w = (Inr i, w1)"
  shows "w1 = (case issue of None \<Rightarrow> record_call (GetIssueCall [] [] issueNum) None w
               | Some j \<Rightarrow> w)"
  using assms
  by (cases issue) (auto simp: fetch_issue_def dest: GetIssue_effect)

text \<open>
  C6. When the loop of \<open>executeGeneric\<close> reaches a phrase that matches the length check,
  with an issue number and the issue (cached, or fetched now) shorter than the configured
  minimum (200, or the \<open>int\<close> under \<open>min_length_for_summary\<close> of the configuration), the
  function returns at once the result with status \<open>skipped\<close> and the message about the
  length, whatever phrases follow: from that point on the world changes by the fetch of
  the issue at most, so no completion is asked and no comment is posted.
\<close>

theorem length_gate_short_circuits:
  assumes "extractIssueNumber (float_overflow E) params = (issueNum, True)"
    and "Actions agent = pre @ action # rest"
    and "actions_loop E e agent params issueNum True pre
           (initial_result agent issueNum True, None) w = (Inr (result, issue), w0)"
    and "is_length_check (ToLower (lower_table E) action)"
    and "fetch_issue E issueNum issue w0 = (Inr i, w1)"
    and "int (length (Body i)) < configured_minLength agent"
  shows "executeGeneric E e agent params w =
           (Returned
              (result(''status'' \<mapsto> AnyString ''skipped'',
                      ''message'' \<mapsto> AnyString
                         (too_short_message (int (length (Body i))) (configured_minLength agent)))),
            w1) \<and>
         w1 = (case issue of None \<Rightarrow> record_call (GetIssueCall [] [] issueNum) None w0
               | Some j \<Rightarrow> w0) \<and>
         (Config agent ''min_length_for_summary'' = None \<longrightarrow> configured_minLength agent = 200) \<and>
         (\<forall>c. Config agent ''min_length_for_summary'' = Some (AnyInt c) \<longrightarrow>
              configured_minLength agent = c)"
proof -
  have step: "action_step E e agent params issueNum True action (result, issue) w0 =
        (Inl (Returned
              (result(''status'' \<mapsto> AnyString ''skipped'',
                      ''message'' \<mapsto> AnyString
                         (too_short_message (int (length (Body i))) (configured_minLength agent))))),
         w1)"
    using assms(4,5,6) by (simp add: action_step_def length_check_block_def Let_def)
  have "actions_loop E e agent params issueNum True (Actions agent)
          (initial_result agent issueNum True, None) w =
        (Inl (Returned
              (result(''status'' \<mapsto> AnyString ''skipped'',
                      ''message'' \<mapsto> AnyString
                         (too_short_message (int (length (Body i))) (configured_minLength agent))))),
         w1)"
    unfolding assms(2) actions_loop_append using assms(3) step by simp
  then have "executeGeneric E e agent params w =
           (Returned
              (result(''status'' \<mapsto> AnyString ''skipped'',
                      ''message'' \<mapsto> AnyString
                         (too_short_message (int (length (Body i))) (configured_minLength agent)))),
            w1)"
    using assms(1) by (simp add: executeGeneric_def Let_def)
  then show ?thesis
    using fetch_issue_effect[OF assms(5)] by (simp add: configured_minLength_def)
qed

lemma summarizer_gate: "is_length_check (ToLower tbl phrase_check)"
  by (simp add: phrase_check_def is_length_check_def ToLower_eval Contains_def)

theorem length_gate_short_circuits_witness:
  "executeGeneric quiet_env executor0 summarizer [''issue_number'' \<mapsto> AnyInt 1] world10 =
     (Returned
        ((initial_result summarizer 1 True)
           (''status'' \<mapsto> AnyString ''skipped'',
            ''message'' \<mapsto> AnyString (too_short_message 10 50))),
      world10\<lparr>call_log := [(GetIssueCall [] [] 1, None)]\<rparr>)"
proof -
  have a1: "extractIssueNumber (float_overflow quiet_env) [''issue_number'' \<mapsto> AnyInt 1] = (1, True)"
    by (simp add: extractIssueNumber_def)
  have a2: "Actions summarizer = [] @ phrase_check # [phrase_generate, phrase_comment]"
    by (simp add: summarizer_def)
  have a3: "actions_loop quiet_env executor0 summarizer [''issue_number'' \<mapsto> AnyInt 1] 1 True []
           (initial_result summarizer 1 True, None) world10 =
           (Inr (initial_result summarizer 1 True, None), world10)" by simp
  have a5: "fetch_issue quiet_env 1 None world10 =
           (Inr issue10, world10\<lparr>call_log := [(GetIssueCall [] [] 1, None)]\<rparr>)"
    by (simp add: fetch_issue_def GetIssue_def quiet_env_def world10_def issue10_def issue0_def
          record_call_def)
  have m: "configured_minLength summarizer = 50"
    by (simp add: configured_minLength_def summarizer_def)
  have a6: "int (length (Body issue10)) < configured_minLength summarizer"
    unfolding m by (simp add: issue10_def)
  have l: "int (length (Body issue10)) = 10" by (simp add: issue10_def)
  from length_gate_short_circuits[OF a1 a2 a3 summarizer_gate a5 a6]
  show ?thesis unfolding m l by simp
qed

lemma executeLLMAction_result:
  assumes "executeLLMAction E e agent i params w = (Inr m, w')"
  shows "(\<exists>err. m = [''error'' \<mapsto> AnyString (''LLM call failed: '' @ err)]) \<or>
         (\<exists>summary. m = [''summary'' \<mapsto> AnyString summary, ''content'' \<mapsto> AnyString summary])"
  using assms unfolding executeLLMAction_def Let_def
  by (auto split: prod.splits sum.splits if_splits)

lemma generate_block_stores:
  assumes "is_generate actionLower"
    and "fetch_issue E issueNum issue w = (Inr i, w1)"
    and "executeLLMAction E e agent i params w1 = (Inr llmResult, w2)"
    and "llmResult ''error'' = None"
  shows "\<exists>summary.
           llmResult = [''summary'' \<mapsto> AnyString summary, ''content'' \<mapsto> AnyString summary] \<and>
           generate_block E e agent params issueNum True actionLower (result, issue) w =
             (Inr (if summary \<noteq> []
                   then result(''summary'' \<mapsto> AnyString summary, ''llm_called'' \<mapsto> AnyBool True)
                   else result,
                   Some i),
              w2)"
proof -
  from executeLLMAction_result[OF assms(3)] assms(4)
  obtain summary where
    m: "llmResult = [''summary'' \<mapsto> AnyString summary, ''content'' \<mapsto> AnyString summary]"
    by auto
  have "generate_block E e agent params issueNum True actionLower (result, issue) w =
             (Inr (if summary \<noteq> []
                   then result(''summary'' \<mapsto> AnyString summary, ''llm_called'' \<mapsto> AnyBool True)
                   else result,
                   Some i),
              w2)"
    using assms(1,2,3) unfolding m
    by (simp add: generate_block_def nonempty_string_at_def)
  with m show ?thesis by blast
qed

text \<open>No block writes the key \<open>content\<close>.\<close>

lemma length_check_block_content:
  assumes "length_check_block E agent n h a (result, issue) w = (r, w')"
    and "result ''content'' = None"
  shows "case r of Inl out \<Rightarrow> (\<forall>m. out = Returned m \<longrightarrow> m ''content'' = None)
         | Inr (result', issue') \<Rightarrow> result' ''content'' = None"
  using assms
  by (auto simp: length_check_block_def Let_def split: if_splits prod.splits sum.splits)

lemma generate_block_content:
  assumes "generate_block E e agent params n h a (result, issue) w = (r, w')"
    and "result ''content'' = None"
  shows "case r of Inl out \<Rightarrow> (\<forall>m. out = Returned m \<longrightarrow> m ''content'' = None)
         | Inr (result', issue') \<Rightarrow> result' ''content'' = None"
  using assms
  by (auto simp: generate_block_def Let_def split: if_splits prod.splits sum.splits option.splits)

lemma comment_block_content:
  assumes "comment_block E agent n h a (result, issue) w = (r, w')"
    and "result ''content'' = None"
  shows "case r of Inl out \<Rightarrow> (\<forall>m. out = Returned m \<longrightarrow> m ''content'' = None)
         | Inr (result', issue') \<Rightarrow> result' ''content'' = None"
  using assms
  by (auto simp: comment_block_def Let_def split: if_splits prod.splits sum.splits option.splits)

lemma action_step_content:
  assumes "action_step E e agent params n h action (result, issue) w = (r, w')"
    and "result ''content'' = None"
  shows "case r of Inl out \<Rightarrow> (\<forall>m. out = Returned m \<longrightarrow> m ''content'' = None)
         | Inr (result', issue') \<Rightarrow> result' ''content'' = None"
proof -
  obtain r1 w1 where b1: "length_check_block E agent n h (ToLower (lower_table E) action) (result, issue) w = (r1, w1)"
    by (cases "length_check_block E agent n h (ToLower (lower_table E) action) (result, issue) w")
  note c1 = length_check_block_content[OF b1 assms(2)]
  show ?thesis
  proof (cases r1)
    case (Inl out)
    with assms(1) b1 c1 show ?thesis by (auto simp: action_step_def Let_def)
  next
    case (Inr st1)
    obtain res1 iss1 where st1: "st1 = (res1, iss1)" by (cases st1)
    obtain r2 w2 where b2: "generate_block E e agent params n h (ToLower (lower_table E) action) (res1, iss1) w1 = (r2, w2)"
      by (cases "generate_block E e agent params n h (ToLower (lower_table E) action) (res1, iss1) w1")
    from c1 Inr st1 have "res1 ''content'' = None" by simp
    note c2 = generate_block_content[OF b2 this]
    show ?thesis
    proof (cases r2)
      case (Inl out)
      with assms(1) b1 Inr st1 b2 c2 show ?thesis by (auto simp: action_step_def Let_def)
    next
      case (Inr st2)
      obtain res2 iss2 where st2: "st2 = (res2, iss2)" by (cases st2)
      from c2 Inr st2 have n2: "res2 ''content'' = None" by simp
      from assms(1) b1 \<open>r1 = Inr st1\<close> st1 b2 Inr st2
      have "comment_block E agent n h (ToLower (lower_table E) action) (res2, iss2) w2 = (r, w')"
        by (simp add: action_step_def Let_def)
      from comment_block_content[OF this n2] show ?thesis .
    qed
  qed
qed

lemma actions_loop_content:
  assumes "actions_loop E e agent params n h actions (result, issue) w = (r, w')"
    and "result ''content'' = None"
  shows "case r of Inl out \<Rightarrow> (\<forall>m. out = Returned m \<longrightarrow> m ''content'' = None)
         | Inr (result', issue') \<Rightarrow> result' ''content'' = None"
  using assms
proof (induction actions arbitrary: result issue w)
  case Nil
  then show ?case by auto
next
  case (Cons a actions)
  obtain r1 w1 where s: "action_step E e agent params n h a (result, issue) w = (r1, w1)"
    by (cases "action_step E e agent params n h a (result, issue) w")
  note c = action_step_content[OF s Cons.prems(2)]
  show ?case
  proof (cases r1)
    case (Inl out)
    with Cons.prems(1) s c show ?thesis by auto
  next
    case (Inr st1)
    obtain res1 iss1 where st1: "st1 = (res1, iss1)" by (cases st1)
    from c Inr st1 have n1: "res1 ''content'' = None" by simp
    from Cons.prems(1) s Inr st1
    have "actions_loop E e agent params n h actions (res1, iss1) w1 = (r, w')" by simp
    from Cons.IH[OF this n1] show ?thesis .
  qed
qed

lemma executeGeneric_content:
  assumes "executeGeneric E e agent params w = (Returned r, w')"
  shows "r ''content'' = None"
proof -
  obtain n h where x: "extractIssueNumber (float_overflow E) params = (n, h)" by (cases "extractIssueNumber (float_overflow E) params")
  have i: "initial_result agent n h ''content'' = None" by (simp add: initial_result_def Let_def)
  obtain r1 w1 where l: "actions_loop E e agent params n h (Actions agent)
      (initial_result agent n h, None) w = (r1, w1)"
    by (cases "actions_loop E e agent params n h (Actions agent) (initial_result agent n h, None) w")
  note c = actions_loop_content[OF l i]
  from assms x l c show ?thesis
    by (auto simp: executeGeneric_def Let_def split: sum.splits prod.splits if_splits)
qed

text \<open>
  C7 (amended). When a phrase matches the generate test and the completion call of
  \<open>executeLLMAction\<close> succeeds, the map that \<open>executeLLMAction\<close> returns holds the cleaned
  text under both \<open>summary\<close> and \<open>content\<close>; \<open>executeGeneric\<close> copies it, when it is not
  empty, into its result map under \<open>summary\<close> (and sets \<open>llm_called\<close>). The result map of
  \<open>executeGeneric\<close> never has the key \<open>content\<close>.
\<close>

theorem generated_text_keys:
  "(is_generate actionLower \<and>
    fetch_issue E issueNum issue w = (Inr i, w1) \<and>
    executeLLMAction E e agent i params w1 = (Inr llmResult, w2) \<and>
    llmResult ''error'' = None \<longrightarrow>
      (\<exists>summary.
         llmResult = [''summary'' \<mapsto> AnyString summary, ''content'' \<mapsto> AnyString summary] \<and>
         generate_block E e agent params issueNum True actionLower (result, issue) w =
           (Inr (if summary \<noteq> []
                 then result(''summary'' \<mapsto> AnyString summary, ''llm_called'' \<mapsto> AnyBool True)
                 else result,
                 Some i),
            w2))) \<and>
   (executeGeneric E e agent params w = (Returned r, w') \<longrightarrow> r ''content'' = None)"
  using generate_block_stores executeGeneric_content by blast

lemma ReplaceAll_absent:
  "old \<noteq> [] \<Longrightarrow> \<not> Contains s old \<Longrightarrow> ReplaceAll s old new = s"
proof (induction s old new rule: ReplaceAll.induct)
  case (1 s old new)
  show ?case
  proof (cases s)
    case Nil
    with "1.prems" show ?thesis by (subst ReplaceAll.simps) simp
  next
    case (Cons c cs)
    from "1.prems"(2) Cons have np: "\<not> HasPrefix s old"
      by (auto simp: Contains_def)
    from "1.prems"(2) Cons np have "\<not> Contains cs old"
      using Index_range[of cs old] by (auto simp: Contains_def Let_def)
    then have "\<not> Contains (tl s) old" using Cons by simp
    from "1.IH"(2)[OF "1.prems"(1) _ np "1.prems"(1) this] Cons
    have "ReplaceAll (tl s) old new = tl s" by simp
    with "1.prems"(1) np Cons show ?thesis by (subst ReplaceAll.simps) simp
  qed
qed

lemma clean_fixed: "clean_summary ''fixed'' = ''fixed''"
proof -
  have t: "TrimSpace ''fixed'' = ''fixed''" by (rule TrimSpace_fixed)
  have c: "\<not> Contains ''fixed'' [CHR 0x0D, CHR 0x0A]" "\<not> Contains ''fixed'' ''\<newline>##''"
    "\<not> Contains ''fixed'' ''\<newline>**''" "\<not> Contains ''fixed'' ''\<newline>\<newline>\<newline>**''"
    "\<not> Contains ''fixed'' ''\<newline>\<newline>\<newline>''" "\<not> Contains ''fixed'' ''Objective''"
    "\<not> Contains ''fixed'' ''objective''"
    by (simp_all add: Contains_def)
  have r: "ReplaceAll ''fixed'' [CHR 0x0D, CHR 0x0A] ''\<newline>'' = ''fixed''"
    "ReplaceAll ''fixed'' ''\<newline>##'' ''\<newline>\<newline>##'' = ''fixed''"
    "ReplaceAll ''fixed'' ''\<newline>**'' ''\<newline>\<newline>**'' = ''fixed''"
    "ReplaceAll ''fixed'' ''\<newline>\<newline>\<newline>**'' ''\<newline>\<newline>**'' = ''fixed''"
    using c by (simp_all add: ReplaceAll_absent)
  have k: "collapse_newlines ''fixed'' = ''fixed''"
    using c(5) by (subst collapse_newlines.simps) simp
  have h: "\<not> HasPrefix ''fixed'' ''```markdown''" "\<not> HasPrefix ''fixed'' ''```''"
    "\<not> HasPrefix ''fixed'' ''Summary:''" "\<not> HasPrefix ''fixed'' ''summary:''"
    "\<not> HasPrefix ''fixed'' ''## Task Summary''"
    by simp_all
  show ?thesis
    unfolding clean_summary_def Let_def t
    by (simp only: h r t k c if_False if_True simp_thms)
qed

lemma summarizer_not_wide:
  "\<not> Contains (ToLower tbl (Name summarizer)) ''executive''"
  "\<not> Contains (ToLower tbl (Name summarizer)) ''progress''"
  "\<not> Contains (ToLower tbl (Name summarizer)) ''summary''"
  by (simp_all add: summarizer_def ToLower_eval Contains_def)

lemma summarizer_llm:
  "executeLLMAction quiet_env executor0 summarizer issue60 params w =
     (Inr [''summary'' \<mapsto> AnyString ''fixed'', ''content'' \<mapsto> AnyString ''fixed''],
      record_call (PromptCall (generic_fallback_prompt issue60)) None w)"
proof -
  have p: "generic_fallback_prompt issue60 \<noteq> []" by (simp add: generic_fallback_prompt_def)
  show ?thesis
    unfolding executeLLMAction_def Let_def
    using summarizer_not_wide p clean_fixed
    by (simp add: executor0_def Prompt_def quiet_env_def Let_def)
qed

lemma summarizer_phrases:
  "\<not> is_generate (ToLower tbl phrase_check)"
  "\<not> is_add_comment (ToLower tbl phrase_check)"
  "\<not> is_length_check (ToLower tbl phrase_generate)"
  "is_generate (ToLower tbl phrase_generate)"
  "\<not> is_add_comment (ToLower tbl phrase_generate)"
  "\<not> is_length_check (ToLower tbl phrase_comment)"
  "is_generate (ToLower tbl phrase_comment)"
  "is_add_comment (ToLower tbl phrase_comment)"
  by (simp_all add: phrase_check_def phrase_generate_def phrase_comment_def
        is_length_check_def is_generate_def is_add_comment_def
        ToLower_eval Contains_def)

lemma summarizer_comment:
  "addCommentToIssue quiet_env summarizer 1 ''fixed'' (w\<lparr>store_issues := [issue60]\<rparr>) =
     (None,
      record_call
        (AddCommentCall [] [] 1 (robot @ '' **Task Summarizer**\<newline>\<newline>\<newline>fixed'')) None
        ((record_call (GetIssueCall [] [] 1) None (w\<lparr>store_issues := [issue60]\<rparr>))
           \<lparr>store_comments := store_comments w @
              [(1, robot @ '' **Task Summarizer**\<newline>\<newline>\<newline>fixed'')]\<rparr>))"
proof -
  have u: "extractRepoFromURL (URL issue60) = ([], [])"
    by (simp add: extractRepoFromURL_def issue60_def issue0_def Split.simps)
  have t: "TrimSpace ''fixed'' = ''fixed''" by (rule TrimSpace_fixed)
  have n: "Number issue60 = 1" by (simp add: issue60_def issue0_def)
  show ?thesis
    unfolding addCommentToIssue_def
    using u t n
    by (simp add: GetIssue_def AddComment_def quiet_env_def record_call_def Let_def summarizer_def)
qed

lemma summarizer_run:
  "executeGeneric quiet_env executor0 summarizer params1 world60 =
     (Returned
        ((initial_result summarizer 1 True)
           (''task_length'' \<mapsto> AnyInt (int (length (Body issue60))),
            ''length_check_passed'' \<mapsto> AnyBool True,
            ''summary'' \<mapsto> AnyString ''fixed'',
            ''llm_called'' \<mapsto> AnyBool True,
            ''summary'' \<mapsto> AnyString ''fixed'',
            ''llm_called'' \<mapsto> AnyBool True,
            ''comment_added'' \<mapsto> AnyBool True,
            ''message'' \<mapsto> AnyString (comment_added_message 1),
            ''status'' \<mapsto> AnyString ''completed'')),
      world60
        \<lparr>store_comments := [(1, robot @ '' **Task Summarizer**\<newline>\<newline>\<newline>fixed'')],
         call_log :=
           [(GetIssueCall [] [] 1, None),
            (PromptCall (generic_fallback_prompt issue60), None),
            (PromptCall (generic_fallback_prompt issue60), None),
            (GetIssueCall [] [] 1, None),
            (AddCommentCall [] [] 1 (robot @ '' **Task Summarizer**\<newline>\<newline>\<newline>fixed''), None)]\<rparr>)"
proof -
  have x: "extractIssueNumber (float_overflow quiet_env) params1 = (1, True)"
    by (simp add: extractIssueNumber_def params1_def)
  have m: "configured_minLength summarizer = 50"
    by (simp add: configured_minLength_def summarizer_def)
  have l: "\<not> int (length (Body issue60)) < 50" "\<not> length (Body issue60) < 50"
    by (simp_all add: issue60_def)
  have g: "GetIssue quiet_env [] [] 1 world60 =
           (Inr issue60, record_call (GetIssueCall [] [] 1) None world60)"
    by (simp add: GetIssue_def quiet_env_def world60_def issue60_def issue0_def Let_def)
  have i: "initial_result summarizer 1 True ''message'' = None"
    by (simp add: initial_result_def Let_def)
  let ?w1 = "record_call (GetIssueCall [] [] 1) None world60"
  let ?w3 = "record_call (PromptCall (generic_fallback_prompt issue60)) None
              (record_call (PromptCall (generic_fallback_prompt issue60)) None ?w1)"
  have c: "addCommentToIssue quiet_env summarizer 1 ''fixed'' ?w3 =
     (None,
      record_call
        (AddCommentCall [] [] 1 (robot @ '' **Task Summarizer**\<newline>\<newline>\<newline>fixed'')) None
        ((record_call (GetIssueCall [] [] 1) None ?w3)
           \<lparr>store_comments := [(1, robot @ '' **Task Summarizer**\<newline>\<newline>\<newline>fixed'')]\<rparr>))"
    using summarizer_comment[of ?w3] by (simp add: record_call_def world60_def)
  have a: "Actions summarizer = [phrase_check, phrase_generate, phrase_comment]"
    by (simp add: summarizer_def)
  show ?thesis
    unfolding executeGeneric_def x a
    apply (simp add: action_step_def length_check_block_def generate_block_def comment_block_def
        summarizer_gate summarizer_phrases fetch_issue_def g m l summarizer_llm
        nonempty_string_at_def c i Let_def)
    apply (simp add: record_call_def world60_def)
    done
qed

theorem generated_text_keys_witness:
  "(\<exists>summary.
      [''summary'' \<mapsto> AnyString ''fixed'', ''content'' \<mapsto> AnyString ''fixed''] =
        [''summary'' \<mapsto> AnyString summary, ''content'' \<mapsto> AnyString summary] \<and>
      generate_block quiet_env executor0 summarizer params1 1 True (ToLower (lower_table quiet_env) phrase_generate)
        (Map.empty, Some issue60) world60 =
        (Inr (if summary \<noteq> []
              then [''summary'' \<mapsto> AnyString summary, ''llm_called'' \<mapsto> AnyBool True]
              else Map.empty,
              Some issue60),
         record_call (PromptCall (generic_fallback_prompt issue60)) None world60)) \<and>
   map_option (\<lambda>r. r ''content'')
     (returned_map (fst (executeGeneric quiet_env executor0 summarizer params1 world60))) =
   Some None"
proof -
  have f: "fetch_issue quiet_env 1 (Some issue60) world60 = (Inr issue60, world60)"
    by (simp add: fetch_issue_def)
  have e: "[''summary'' \<mapsto> AnyString ''fixed'', ''content'' \<mapsto> AnyString ''fixed''] ''error'' = None"
    by simp
  note t = generated_text_keys[where actionLower = "ToLower (lower_table quiet_env) phrase_generate" and E = quiet_env
      and issueNum = 1 and issue = "Some issue60" and w = world60 and i = issue60 and ?w1.0 = world60
      and e = executor0 and agent = summarizer and params = params1
      and llmResult = "[''summary'' \<mapsto> AnyString ''fixed'', ''content'' \<mapsto> AnyString ''fixed'']"
      and ?w2.0 = "record_call (PromptCall (generic_fallback_prompt issue60)) None world60"
      and result = Map.empty
      and w' = "snd (executeGeneric quiet_env executor0 summarizer params1 world60)"]
  from t[THEN conjunct1] summarizer_phrases(4) f summarizer_llm[of params1 world60] e
  have a: "\<exists>summary.
      [''summary'' \<mapsto> AnyString ''fixed'', ''content'' \<mapsto> AnyString ''fixed''] =
        [''summary'' \<mapsto> AnyString summary, ''content'' \<mapsto> AnyString summary] \<and>
      generate_block quiet_env executor0 summarizer params1 1 True (ToLower (lower_table quiet_env) phrase_generate)
        (Map.empty, Some issue60) world60 =
        (Inr (if summary \<noteq> []
              then [''summary'' \<mapsto> AnyString summary, ''llm_called'' \<mapsto> AnyBool True]
              else Map.empty,
              Some issue60),
         record_call (PromptCall (generic_fallback_prompt issue60)) None world60)"
    by blast
  obtain r w where rw: "executeGeneric quiet_env executor0 summarizer params1 world60 = (Returned r, w)"
    using summarizer_run by blast
  then have "snd (executeGeneric quiet_env executor0 summarizer params1 world60) = w" by simp
  with t[where r = r, THEN conjunct2] rw have "r ''content'' = None" by simp
  with rw have "map_option (\<lambda>r. r ''content'')
     (returned_map (fst (executeGeneric quiet_env executor0 summarizer params1 world60))) = Some None"
    by (simp add: returned_map_def)
  with a show ?thesis by blast
qed

text \<open>
  The claim as stated fails on the Task Summarizer agent: after the generate phase the
  result map has the text under \<open>summary\<close> and nothing under \<open>content\<close>.
\<close>

theorem generated_text_keys_counterexample:
  "map_option (\<lambda>r. (r ''summary'', r ''llm_called'', r ''content''))
     (returned_map (fst (executeGeneric quiet_env executor0 summarizer params1 world60))) =
   Some (Some (AnyString ''fixed''), Some (AnyBool True), None)"
  unfolding summarizer_run
  by (simp add: returned_map_def initial_result_def Let_def)

section \<open>Batch validation\<close>

lemma store_step_refl: "store_step S w w"
  by (simp add: store_step_def list_all2_refl)

lemma store_step_same: "store_issues w' = store_issues w \<Longrightarrow> store_step S w w'"
  by (simp add: store_step_def list_all2_refl)

lemma store_step_trans:
  assumes "store_step S w w1" and "store_step T w1 w2" and "S \<subseteq> U" and "T \<subseteq> U"
  shows "store_step U w w2"
proof -
  have "list_all2
       (\<lambda>i j. Number j = Number i \<and> State j = State i \<and> set (Labels i) \<subseteq> set (Labels j) \<and>
              (Number i \<notin> U \<longrightarrow> j = i))
       (store_issues w) (store_issues w2)"
    using assms(1,2) unfolding store_step_def
  proof (rule list_all2_trans[rotated])
    fix a b c
    assume "Number b = Number a \<and> State b = State a \<and> set (Labels a) \<subseteq> set (Labels b) \<and>
              (Number a \<notin> S \<longrightarrow> b = a)"
      and "Number c = Number b \<and> State c = State b \<and> set (Labels b) \<subseteq> set (Labels c) \<and>
              (Number b \<notin> T \<longrightarrow> c = b)"
    with assms(3,4)
    show "Number c = Number a \<and> State c = State a \<and> set (Labels a) \<subseteq> set (Labels c) \<and>
              (Number a \<notin> U \<longrightarrow> c = a)" by auto
  qed
  then show ?thesis by (simp add: store_step_def)
qed

lemma store_step_map:
  assumes "store_issues w' = map g (store_issues w)"
    and "\<And>i. Number (g i) = Number i \<and> State (g i) = State i \<and> set (Labels i) \<subseteq> set (Labels (g i)) \<and>
              (Number i \<notin> S \<longrightarrow> g i = i)"
  shows "store_step S w w'"
  unfolding store_step_def assms(1)
  by (simp add: list_all2_map2 list_all2_refl assms(2))

lemma store_step_sentinel:
  assumes "store_step S w w'" and "j' \<in> set (store_issues w')"
  shows "\<exists>j \<in> set (store_issues w). Number j' = Number j \<and> State j' = State j \<and>
           set (Labels j) \<subseteq> set (Labels j') \<and> (Number j \<notin> S \<longrightarrow> j' = j)"
proof -
  from assms(2) obtain k where k: "k < length (store_issues w')" "store_issues w' ! k = j'"
    by (auto simp: in_set_conv_nth)
  from assms(1) have l: "length (store_issues w) = length (store_issues w')"
    by (simp add: store_step_def list_all2_lengthD)
  from assms(1) k l have "Number j' = Number (store_issues w ! k) \<and>
      State j' = State (store_issues w ! k) \<and>
      set (Labels (store_issues w ! k)) \<subseteq> set (Labels j') \<and>
      (Number (store_issues w ! k) \<notin> S \<longrightarrow> j' = store_issues w ! k)"
    unfolding store_step_def by (auto dest: list_all2_nthD2)
  moreover have "store_issues w ! k \<in> set (store_issues w)" using k l by simp
  ultimately show ?thesis by blast
qed

lemma edit_body_props:
  "Number (edit_issue None (Some b) i) = Number i"
  "State (edit_issue None (Some b) i) = State i"
  "Labels (edit_issue None (Some b) i) = Labels i"
  by (simp_all add: edit_issue_def)

lemma add_label_props:
  "Number (add_label l i) = Number i"
  "State (add_label l i) = State i"
  "set (Labels (add_label l i)) = insert l (set (Labels i))"
  by (auto simp: add_label_def)

lemma has_sentinel_add_label: "has_sentinel (add_label ''agent-validator'' i)"
  by (simp only: has_sentinel_def add_label_props insertI1)

lemma has_sentinel_mono:
  "set (Labels i) \<subseteq> set (Labels j) \<Longrightarrow> has_sentinel i \<Longrightarrow> has_sentinel j"
  unfolding has_sentinel_def by blast

lemma AddLabel_step:
  assumes "AddLabel E ow rp n ''agent-validator'' w = (le, w')"
  shows "call_log w' = call_log w @ [(AddLabelCall ow rp n ''agent-validator'', le)] \<and>
         store_step {n} w w' \<and>
         (le = None \<longrightarrow> (\<forall>j \<in> set (store_issues w'). Number j = n \<longrightarrow> has_sentinel j))"
proof -
  note e = AddLabel_effect[OF assms]
  show ?thesis
  proof (cases le)
    case None
    with e have s: "store_issues w' =
        map (\<lambda>i. if Number i = n then add_label ''agent-validator'' i else i) (store_issues w)"
      and c: "call_log w' = call_log w @ [(AddLabelCall ow rp n ''agent-validator'', le)]"
      by (simp_all add: record_call_def)
    have "store_step {n} w w'"
      by (rule store_step_map[OF s]) (simp add: add_label_props subset_insertI)
    moreover have "\<forall>j \<in> set (store_issues w'). Number j = n \<longrightarrow> has_sentinel j"
    proof (intro ballI impI)
      fix j assume j: "j \<in> set (store_issues w')" and n: "Number j = n"
      from j have "j \<in> (\<lambda>i. if Number i = n then add_label ''agent-validator'' i else i) `
                      set (store_issues w)"
        unfolding s by simp
      then obtain i where
        ji: "j = (if Number i = n then add_label ''agent-validator'' i else i)"
        by (rule imageE)
      show "has_sentinel j"
      proof (cases "Number i = n")
        case True
        with ji have "j = add_label ''agent-validator'' i" by simp
        then show ?thesis by (simp only: has_sentinel_add_label)
      next
        case False
        with ji n show ?thesis by simp
      qed
    qed
    ultimately show ?thesis using c by simp
  next
    case (Some err)
    with e show ?thesis by (simp add: record_call_def store_step_same)
  qed
qed

text \<open>What one run of \<open>ValidateAndFix\<close> does to the call log and to the store.\<close>

lemma ValidateAndFix_logs:
  assumes "ValidateAndFix E v x w = (res, w')"
  shows "w' = w \<or>
     (\<exists>p e. call_log w' = call_log w @ [(PromptCall p, Some e)] \<and>
            store_issues w' = store_issues w) \<or>
     (\<exists>p ow rp b e.
        call_log w' = call_log w @
          [(PromptCall p, None), (UpdateIssueCall ow rp (Number x) None (Some b), Some e)] \<and>
        store_issues w' = store_issues w) \<or>
     (\<exists>p ow rp b c ce.
        call_log w' = call_log w @
          [(PromptCall p, None), (UpdateIssueCall ow rp (Number x) None (Some b), None),
           (AddCommentCall ow rp (Number x) c, ce)] \<and>
        store_issues w' =
          map (\<lambda>i. if Number i = Number x then edit_issue None (Some b) i else i) (store_issues w))"
  using ValidateAndFix_cases[OF assms]
proof (elim disjE conjE exE)
  assume "w' = w" then show ?thesis by blast
next
  fix p e
  assume "w' = record_call (PromptCall p) (Some e) w"
  then have "call_log w' = call_log w @ [(PromptCall p, Some e)] \<and> store_issues w' = store_issues w"
    by (simp add: record_call_def)
  then show ?thesis by blast
next
  fix p fixedBody e
  let ?u = "UpdateIssueCall (fst (agent_extractRepoFromURL (URL x)))
                   (snd (agent_extractRepoFromURL (URL x))) (Number x) None
                   (Some (preserveOriginalWithModifications (Body x) fixedBody
                            (checkFormat (lower_table E) (rules v) x)))"
  assume "w' = record_call ?u (Some e) (record_call (PromptCall p) None w)"
  then have "call_log w' = call_log w @ [(PromptCall p, None), (?u, Some e)] \<and>
      store_issues w' = store_issues w"
    by (simp add: record_call_def)
  then show ?thesis by blast
next
  fix p fixedBody ce
  assume "call_log w' = call_log w @
           [(PromptCall p, None),
            (UpdateIssueCall (fst (agent_extractRepoFromURL (URL x)))
               (snd (agent_extractRepoFromURL (URL x))) (Number x) None
               (Some (preserveOriginalWithModifications (Body x) fixedBody
                        (checkFormat (lower_table E) (rules v) x))), None),
            (AddCommentCall (fst (agent_extractRepoFromURL (URL x)))
               (snd (agent_extractRepoFromURL (URL x))) (Number x)
               (fixed_comment (checkFormat (lower_table E) (rules v) x)), ce)]"
    "store_issues w' =
           map (\<lambda>i. if Number i = Number x
                     then edit_issue None
                            (Some (preserveOriginalWithModifications (Body x) fixedBody
                                     (checkFormat (lower_table E) (rules v) x))) i
                     else i)
             (store_issues w)"
  then show ?thesis by blast
qed

lemma ValidateAndFix_step:
  assumes "ValidateAndFix E v x w = (res, w')"
  shows "\<exists>new. call_log w' = call_log w @ new \<and>
           (\<forall>(c, oc) \<in> set new. \<forall>n. call_target c = Some n \<longrightarrow> n = Number x) \<and>
           (\<forall>(c, oc) \<in> set new. \<not> is_add_label c) \<and>
           store_step {Number x} w w'"
  using ValidateAndFix_logs[OF assms]
proof (elim disjE exE conjE)
  assume "w' = w"
  then show ?thesis by (simp add: store_step_refl)
next
  fix p e
  assume "call_log w' = call_log w @ [(PromptCall p, Some e)]" "store_issues w' = store_issues w"
  then show ?thesis by (simp add: store_step_same)
next
  fix p ow rp b e
  assume "call_log w' = call_log w @
          [(PromptCall p, None), (UpdateIssueCall ow rp (Number x) None (Some b), Some e)]"
    "store_issues w' = store_issues w"
  then show ?thesis by (simp add: store_step_same)
next
  fix p ow rp b c ce
  assume c: "call_log w' = call_log w @
          [(PromptCall p, None), (UpdateIssueCall ow rp (Number x) None (Some b), None),
           (AddCommentCall ow rp (Number x) c, ce)]"
    and s: "store_issues w' =
          map (\<lambda>i. if Number i = Number x then edit_issue None (Some b) i else i) (store_issues w)"
  have "store_step {Number x} w w'"
    by (rule store_step_map[OF s]) (simp add: edit_body_props)
  with c show ?thesis by simp
qed

lemma validate_one_step:
  assumes "validate_one E v x acc w = (acc', w')"
  shows "\<exists>new es. call_log w' = call_log w @ new \<and> errors acc' = errors acc @ es \<and>
     (\<forall>(c, oc) \<in> set new. \<forall>n. call_target c = Some n \<longrightarrow> n = Number x) \<and>
     store_step {Number x} w w' \<and>
     validatedCount acc' + int (length es) = validatedCount acc + 1 \<and>
     (es = [] \<and> (\<forall>(c, oc) \<in> set new. is_add_label c \<longrightarrow> oc = None) \<longrightarrow>
        (\<forall>j \<in> set (store_issues w'). Number j = Number x \<longrightarrow> has_sentinel j))"
proof -
  obtain valid comment err w1 where vf: "ValidateAndFix E v x w = ((valid, comment, err), w1)"
    by (metis prod.exhaust)
  from ValidateAndFix_step[OF vf] obtain new1 where
    l1: "call_log w1 = call_log w @ new1"
    and t1: "\<forall>(c, oc) \<in> set new1. \<forall>n. call_target c = Some n \<longrightarrow> n = Number x"
    and a1: "\<forall>(c, oc) \<in> set new1. \<not> is_add_label c"
    and s1: "store_step {Number x} w w1"
    by blast
  show ?thesis
  proof (cases err)
    case (Some e)
    with assms vf have acc': "acc' = acc\<lparr>errors := errors acc @ [''issue #'' @ Itoa (Number x) @ '': '' @ e]\<rparr>"
      and w': "w' = w1"
      by (simp_all add: validate_one_def)
    let ?es = "[''issue #'' @ Itoa (Number x) @ '': '' @ e]"
    have "call_log w' = call_log w @ new1 \<and> errors acc' = errors acc @ ?es \<and>
     (\<forall>(c, oc) \<in> set new1. \<forall>n. call_target c = Some n \<longrightarrow> n = Number x) \<and>
     store_step {Number x} w w' \<and>
     validatedCount acc' + int (length ?es) = validatedCount acc + 1 \<and>
     (?es = [] \<and> (\<forall>(c, oc) \<in> set new1. is_add_label c \<longrightarrow> oc = None) \<longrightarrow>
        (\<forall>j \<in> set (store_issues w'). Number j = Number x \<longrightarrow> has_sentinel j))"
      using l1 t1 s1 by (simp add: acc' w')
    then show ?thesis by blast
  next
    case None
    let ?ow = "fst (extractRepoFromURL (URL x))"
    let ?rp = "snd (extractRepoFromURL (URL x))"
    obtain le w2 where al: "AddLabel E ?ow ?rp (Number x) ''agent-validator'' w1 = (le, w2)"
      by (metis prod.exhaust)
    note st = AddLabel_step[OF al]
    from assms vf None al have
      w': "w' = (case le of Some err \<Rightarrow> Printf (label_warning (Number x) err) w2 | None \<Rightarrow> w2)"
      and vc: "validatedCount acc' = validatedCount acc + 1"
      and er: "errors acc' = errors acc"
      by (auto simp: validate_one_def Let_def case_prod_beta split: option.splits if_splits)
    have lw: "call_log w' = call_log w2" and sw: "store_issues w' = store_issues w2"
      unfolding w' by (cases le; simp add: Printf_def)+
    let ?new = "new1 @ [(AddLabelCall ?ow ?rp (Number x) ''agent-validator'', le)]"
    have c: "call_log w' = call_log w @ ?new" using lw st l1 by simp
    have t: "\<forall>(c, oc) \<in> set ?new. \<forall>n. call_target c = Some n \<longrightarrow> n = Number x"
      using t1 by auto
    have "store_step {Number x} w w2"
      using store_step_trans[OF s1 _ subset_refl subset_refl] st by blast
    then have s: "store_step {Number x} w w'"
      using sw by (simp add: store_step_def)
    have d: "(\<forall>(c, oc) \<in> set ?new. is_add_label c \<longrightarrow> oc = None) \<longrightarrow>
        (\<forall>j \<in> set (store_issues w'). Number j = Number x \<longrightarrow> has_sentinel j)"
      using st sw by simp
    have "call_log w' = call_log w @ ?new \<and> errors acc' = errors acc @ [] \<and>
     (\<forall>(c, oc) \<in> set ?new. \<forall>n. call_target c = Some n \<longrightarrow> n = Number x) \<and>
     store_step {Number x} w w' \<and>
     validatedCount acc' + int (length ([] :: string list)) = validatedCount acc + 1 \<and>
     (([] :: string list) = [] \<and> (\<forall>(c, oc) \<in> set ?new. is_add_label c \<longrightarrow> oc = None) \<longrightarrow>
        (\<forall>j \<in> set (store_issues w'). Number j = Number x \<longrightarrow> has_sentinel j))"
      using c t s d vc er by simp
    then show ?thesis by blast
  qed
qed

lemma validate_loop_run:
  assumes "validate_loop E v xs acc w = (acc', w')"
  shows "\<exists>new es. call_log w' = call_log w @ new \<and> errors acc' = errors acc @ es \<and>
     (\<forall>(c, oc) \<in> set new. \<forall>n. call_target c = Some n \<longrightarrow> n \<in> Number ` set xs) \<and>
     store_step (Number ` set xs) w w' \<and>
     validatedCount acc' + int (length es) = validatedCount acc + int (length xs) \<and>
     (es = [] \<and> (\<forall>(c, oc) \<in> set new. is_add_label c \<longrightarrow> oc = None) \<longrightarrow>
        (\<forall>j \<in> set (store_issues w'). Number j \<in> Number ` set xs \<longrightarrow> has_sentinel j))"
  using assms
proof (induction xs arbitrary: acc w)
  case Nil
  then have a: "acc' = acc" "w' = w" by simp_all
  show ?case
    by (rule exI[of _ "[]"], rule exI[of _ "[]"]) (simp add: a store_step_refl)
next
  case (Cons x xs)
  obtain acc1 w1 where one: "validate_one E v x acc w = (acc1, w1)" by (metis prod.exhaust)
  with Cons.prems have rest: "validate_loop E v xs acc1 w1 = (acc', w')" by simp
  from validate_one_step[OF one] obtain new1 es1 where
    l1: "call_log w1 = call_log w @ new1" and e1: "errors acc1 = errors acc @ es1"
    and t1: "\<forall>(c, oc) \<in> set new1. \<forall>n. call_target c = Some n \<longrightarrow> n = Number x"
    and s1: "store_step {Number x} w w1"
    and c1: "validatedCount acc1 + int (length es1) = validatedCount acc + 1"
    and d1: "es1 = [] \<and> (\<forall>(c, oc) \<in> set new1. is_add_label c \<longrightarrow> oc = None) \<longrightarrow>
        (\<forall>j \<in> set (store_issues w1). Number j = Number x \<longrightarrow> has_sentinel j)"
    by (elim exE conjE) (rule that, assumption+)
  from Cons.IH[OF rest] obtain new2 es2 where
    l2: "call_log w' = call_log w1 @ new2" and e2: "errors acc' = errors acc1 @ es2"
    and t2: "\<forall>(c, oc) \<in> set new2. \<forall>n. call_target c = Some n \<longrightarrow> n \<in> Number ` set xs"
    and s2: "store_step (Number ` set xs) w1 w'"
    and c2: "validatedCount acc' + int (length es2) = validatedCount acc1 + int (length xs)"
    and d2: "es2 = [] \<and> (\<forall>(c, oc) \<in> set new2. is_add_label c \<longrightarrow> oc = None) \<longrightarrow>
        (\<forall>j \<in> set (store_issues w'). Number j \<in> Number ` set xs \<longrightarrow> has_sentinel j)"
    by (elim exE conjE) (rule that, assumption+)
  let ?new = "new1 @ new2" and ?es = "es1 @ es2"
  have l: "call_log w' = call_log w @ ?new" using l1 l2 by simp
  have e: "errors acc' = errors acc @ ?es" using e1 e2 by simp
  have t: "\<forall>(c, oc) \<in> set ?new. \<forall>n. call_target c = Some n \<longrightarrow> n \<in> Number ` set (x # xs)"
  proof (intro ballI)
    fix p assume "p \<in> set ?new"
    then have "p \<in> set new1 \<or> p \<in> set new2" by simp
    then show "case p of (c, oc) \<Rightarrow> \<forall>n. call_target c = Some n \<longrightarrow> n \<in> Number ` set (x # xs)"
    proof
      assume "p \<in> set new1"
      with t1 have "case p of (c, oc) \<Rightarrow> \<forall>n. call_target c = Some n \<longrightarrow> n = Number x"
        by (rule bspec)
      then show ?thesis by (cases p) simp
    next
      assume "p \<in> set new2"
      with t2 have "case p of (c, oc) \<Rightarrow> \<forall>n. call_target c = Some n \<longrightarrow> n \<in> Number ` set xs"
        by (rule bspec)
      then show ?thesis by (cases p) simp
    qed
  qed
  have s: "store_step (Number ` set (x # xs)) w w'"
    by (rule store_step_trans[OF s1 s2]) (simp_all add: subset_insertI)
  have c: "validatedCount acc' + int (length ?es) = validatedCount acc + int (length (x # xs))"
    using c1 c2 by simp
  have d: "?es = [] \<and> (\<forall>(c, oc) \<in> set ?new. is_add_label c \<longrightarrow> oc = None) \<longrightarrow>
        (\<forall>j \<in> set (store_issues w'). Number j \<in> Number ` set (x # xs) \<longrightarrow> has_sentinel j)"
  proof (intro impI ballI)
    fix j
    assume h: "?es = [] \<and> (\<forall>(c, oc) \<in> set ?new. is_add_label c \<longrightarrow> oc = None)"
      and j: "j \<in> set (store_issues w')" and n: "Number j \<in> Number ` set (x # xs)"
    from h have h1: "es1 = [] \<and> (\<forall>(c, oc) \<in> set new1. is_add_label c \<longrightarrow> oc = None)"
      and h2: "es2 = [] \<and> (\<forall>(c, oc) \<in> set new2. is_add_label c \<longrightarrow> oc = None)"
      by simp_all
    from d1 h1 have k1: "\<forall>j \<in> set (store_issues w1). Number j = Number x \<longrightarrow> has_sentinel j"
      by (rule mp)
    from d2 h2 have k2: "\<forall>j \<in> set (store_issues w'). Number j \<in> Number ` set xs \<longrightarrow> has_sentinel j"
      by (rule mp)
    from n have "Number j = Number x \<or> Number j \<in> Number ` set xs" by simp
    then show "has_sentinel j"
    proof
      assume "Number j \<in> Number ` set xs"
      with k2 j show ?thesis by simp
    next
      assume nx: "Number j = Number x"
      from store_step_sentinel[OF s2 j] obtain i where
        i: "i \<in> set (store_issues w1)" "Number j = Number i" "set (Labels i) \<subseteq> set (Labels j)"
        by (elim bexE conjE) (rule that, assumption+)
      from k1 i(1) have "Number i = Number x \<longrightarrow> has_sentinel i" by (rule bspec)
      with i(2) nx have "has_sentinel i" by simp
      with i(3) show ?thesis by (rule has_sentinel_mono)
    qed
  qed
  show ?case
    by (rule exI[of _ ?new], rule exI[of _ ?es]) (intro conjI l e t s c d)
qed

lemma hasValidatorLabel_iff: "hasValidatorLabel ls \<longleftrightarrow> ''agent-validator'' \<in> set ls"
  by (induction ls) auto

lemma issuesToValidate_loop_eq:
  "issuesToValidate_loop xs acc = acc @ filter (\<lambda>i. \<not> has_sentinel i) xs"
  by (induction xs arbitrary: acc) (auto simp: hasValidatorLabel_iff has_sentinel_def)

lemma ListIssues_open:
  assumes "ListIssues E ''open'' w = (Inr l, w1)"
  shows "l = open_issues w \<and> store_issues w1 = store_issues w \<and>
         call_log w1 = call_log w @ [(ListIssuesCall ''open'', None)]"
  using assms
  by (auto simp: ListIssues_def open_issues_def record_call_def Let_def split: option.splits)

lemma validate_all_result:
  assumes "validate_all E agent sp w0 = (Returned r, w')"
  shows "\<exists>acc w1.
     ListIssues E ''open'' w0 = (Inr (open_issues w0), w1) \<and>
     validate_loop E (NewValidator E default_rules None)
       (filter (\<lambda>i. \<not> has_sentinel i) (open_issues w0)) acc0 w1 = (acc, w') \<and>
     r ''total_issues'' = Some (AnyInt (int (length (open_issues w0)))) \<and>
     r ''validated_count'' = Some (AnyInt (validatedCount acc)) \<and>
     r ''skipped_count'' = Some (AnyInt (int (length (open_issues w0)) - validatedCount acc)) \<and>
     error_count r = int (length (errors acc)) \<and>
     (r ''errors'' = None \<longleftrightarrow> errors acc = [])"
proof -
  obtain lr w1 where li: "ListIssues E ''open'' w0 = (lr, w1)" by (metis prod.exhaust)
  show ?thesis
  proof (cases lr)
    case (Inl err)
    with assms li show ?thesis by (simp add: validate_all_def Let_def)
  next
    case (Inr allIssues)
    with li ListIssues_open[of E w0 allIssues w1] have all: "allIssues = open_issues w0" by simp
    let ?xs = "filter (\<lambda>i. \<not> has_sentinel i) (open_issues w0)"
    have itv: "issuesToValidate_loop allIssues [] = ?xs"
      by (simp add: issuesToValidate_loop_eq all)
    show ?thesis
    proof (cases "?xs = []")
      case True
      have loop: "validate_loop E (NewValidator E default_rules None) ?xs acc0 w1 = (acc0, w1)"
        by (simp add: True)
      from assms li Inr itv True have w': "w' = w1"
        by (simp add: validate_all_def Let_def split: option.splits)
      from assms li Inr itv True have
        "r ''total_issues'' = Some (AnyInt (int (length (open_issues w0)))) \<and>
         r ''validated_count'' = Some (AnyInt 0) \<and>
         r ''skipped_count'' = Some (AnyInt (int (length (open_issues w0)))) \<and>
         r ''error_count'' = None \<and> r ''errors'' = None"
        by (auto simp: validate_all_def Let_def all split: option.splits)
      then have f: "r ''total_issues'' = Some (AnyInt (int (length (open_issues w0)))) \<and>
         r ''validated_count'' = Some (AnyInt (validatedCount acc0)) \<and>
         r ''skipped_count'' = Some (AnyInt (int (length (open_issues w0)) - validatedCount acc0)) \<and>
         error_count r = int (length (errors acc0)) \<and>
         (r ''errors'' = None \<longleftrightarrow> errors acc0 = [])"
        by (simp add: acc0_def error_count_def)
      have li': "ListIssues E ''open'' w0 = (Inr (open_issues w0), w1)" using li Inr all by simp
      have loop': "validate_loop E (NewValidator E default_rules None) ?xs acc0 w1 = (acc0, w')"
        using loop w' by simp
      show ?thesis
        by (rule exI[of _ acc0], rule exI[of _ w1]) (intro conjI li' loop'; simp add: f)
    next
      case False
      obtain acc w2 where loop:
        "validate_loop E (NewValidator E default_rules None) ?xs acc0 w1 = (acc, w2)"
        by (metis prod.exhaust)
      from assms li Inr itv False loop have w': "w' = w2"
        by (simp add: validate_all_def Let_def acc0_def split: option.splits)
      from assms li Inr itv False loop have f:
        "r ''total_issues'' = Some (AnyInt (int (length (open_issues w0)))) \<and>
         r ''validated_count'' = Some (AnyInt (validatedCount acc)) \<and>
         r ''skipped_count'' = Some (AnyInt (int (length (open_issues w0)) - validatedCount acc)) \<and>
         error_count r = int (length (errors acc)) \<and>
         (r ''errors'' = None \<longleftrightarrow> errors acc = [])"
        by (auto simp: validate_all_def Let_def all acc0_def error_count_def
              split: option.splits if_splits)
      have li': "ListIssues E ''open'' w0 = (Inr (open_issues w0), w1)" using li Inr all by simp
      have loop': "validate_loop E (NewValidator E default_rules None) ?xs acc0 w1 = (acc, w')"
        using loop w' by simp
      show ?thesis
        by (rule exI[of _ acc], rule exI[of _ w1]) (intro conjI li' loop'; simp add: f)
    qed
  qed
qed

lemma store_step_open_length:
  assumes "store_step S w w'"
  shows "length (open_issues w') = length (open_issues w)"
proof -
  have "list_all2 (\<lambda>i j. State j = State i) (store_issues w) (store_issues w')"
    using assms unfolding store_step_def by (rule list_all2_mono) simp
  then have "length (filter (\<lambda>i. State i = ''open'') (store_issues w')) =
             length (filter (\<lambda>i. State i = ''open'') (store_issues w))"
    by (induction rule: list_all2_induct) simp_all
  then show ?thesis by (simp add: open_issues_def)
qed

lemma validate_all_run:
  assumes "validate_all E agent sp w0 = (Returned r, w')"
  shows "\<exists>validated skipped new.
      call_log w' = call_log w0 @ (ListIssuesCall ''open'', None) # new \<and>
      r ''total_issues'' = Some (AnyInt (int (length (open_issues w0)))) \<and>
      r ''validated_count'' = Some (AnyInt validated) \<and>
      r ''skipped_count'' = Some (AnyInt skipped) \<and>
      validated + skipped = int (length (open_issues w0)) \<and>
      validated + error_count r =
        int (length (open_issues w0)) - int (length (filter has_sentinel (open_issues w0))) \<and>
      (\<forall>(c, oc) \<in> set new. \<forall>n. call_target c = Some n \<longrightarrow>
          n \<in> Number ` {i \<in> set (open_issues w0). \<not> has_sentinel i}) \<and>
      store_step (Number ` {i \<in> set (open_issues w0). \<not> has_sentinel i}) w0 w' \<and>
      (r ''errors'' = None \<and> (\<forall>(c, oc) \<in> set new. is_add_label c \<longrightarrow> oc = None) \<longrightarrow>
         (\<forall>j \<in> set (open_issues w'). has_sentinel j) \<and>
         length (open_issues w') = length (open_issues w0) \<and>
         validated =
           int (length (open_issues w0)) - int (length (filter has_sentinel (open_issues w0))) \<and>
         skipped = int (length (filter has_sentinel (open_issues w0))))"
proof -
  let ?xs = "filter (\<lambda>i. \<not> has_sentinel i) (open_issues w0)"
  let ?S = "Number ` {i \<in> set (open_issues w0). \<not> has_sentinel i}"
  let ?N = "int (length (open_issues w0))"
  let ?M = "int (length (filter has_sentinel (open_issues w0)))"
  from validate_all_result[OF assms] obtain acc w1 where
    li: "ListIssues E ''open'' w0 = (Inr (open_issues w0), w1)"
    and loop: "validate_loop E (NewValidator E default_rules None) ?xs acc0 w1 = (acc, w')"
    and r1: "r ''total_issues'' = Some (AnyInt ?N)"
    and r2: "r ''validated_count'' = Some (AnyInt (validatedCount acc))"
    and r3: "r ''skipped_count'' = Some (AnyInt (?N - validatedCount acc))"
    and r4: "error_count r = int (length (errors acc))"
    and r5: "r ''errors'' = None \<longleftrightarrow> errors acc = []"
    by (elim exE conjE) (rule that, assumption+)
  from ListIssues_open[OF li] have s01: "store_issues w1 = store_issues w0"
    and l01: "call_log w1 = call_log w0 @ [(ListIssuesCall ''open'', None)]" by simp_all
  have sx: "Number ` set ?xs = ?S" by auto
  from validate_loop_run[OF loop] obtain new es where
    l: "call_log w' = call_log w1 @ new" and e: "errors acc = errors acc0 @ es"
    and t: "\<forall>(c, oc) \<in> set new. \<forall>n. call_target c = Some n \<longrightarrow> n \<in> Number ` set ?xs"
    and s: "store_step (Number ` set ?xs) w1 w'"
    and c: "validatedCount acc + int (length es) = validatedCount acc0 + int (length ?xs)"
    and d: "es = [] \<and> (\<forall>(c, oc) \<in> set new. is_add_label c \<longrightarrow> oc = None) \<longrightarrow>
        (\<forall>j \<in> set (store_issues w'). Number j \<in> Number ` set ?xs \<longrightarrow> has_sentinel j)"
    by (elim exE conjE) (rule that, assumption+)
  have es: "errors acc = es" using e by (simp add: acc0_def)
  have nm: "int (length ?xs) = ?N - ?M"
    using sum_length_filter_compl[of has_sentinel "open_issues w0"] by simp
  have cnt: "validatedCount acc + int (length es) = ?N - ?M"
    using c nm by (simp add: acc0_def)
  have g1: "call_log w' = call_log w0 @ (ListIssuesCall ''open'', None) # new"
    using l l01 by simp
  have g5: "validatedCount acc + (?N - validatedCount acc) = ?N" by simp
  have g6: "validatedCount acc + error_count r = ?N - ?M" using cnt r4 es by simp
  have g7: "\<forall>(c, oc) \<in> set new. \<forall>n. call_target c = Some n \<longrightarrow> n \<in> ?S"
    using t unfolding sx .
  have s0: "store_step ?S w0 w'"
    using s s01 unfolding sx by (simp add: store_step_def)
  have g9: "r ''errors'' = None \<and> (\<forall>(c, oc) \<in> set new. is_add_label c \<longrightarrow> oc = None) \<longrightarrow>
         (\<forall>j \<in> set (open_issues w'). has_sentinel j) \<and>
         length (open_issues w') = length (open_issues w0) \<and>
         validatedCount acc = ?N - ?M \<and>
         ?N - validatedCount acc = ?M"
  proof (intro impI)
    assume h: "r ''errors'' = None \<and> (\<forall>(c, oc) \<in> set new. is_add_label c \<longrightarrow> oc = None)"
    then have e0: "es = []" using r5 es by simp
    with h have "es = [] \<and> (\<forall>(c, oc) \<in> set new. is_add_label c \<longrightarrow> oc = None)" by simp
    with d have k: "\<forall>j \<in> set (store_issues w'). Number j \<in> ?S \<longrightarrow> has_sentinel j"
      unfolding sx by (rule mp)
    have a: "\<forall>j \<in> set (open_issues w'). has_sentinel j"
    proof
      fix j assume "j \<in> set (open_issues w')"
      then have j: "j \<in> set (store_issues w')" and o: "State j = ''open''"
        by (simp_all add: open_issues_def)
      from store_step_sentinel[OF s0 j] obtain i where
        i: "i \<in> set (store_issues w0)" "Number j = Number i" "State j = State i"
           "set (Labels i) \<subseteq> set (Labels j)"
        by (elim bexE conjE) (rule that, assumption+)
      from i(1,3) o have io: "i \<in> set (open_issues w0)" by (simp add: open_issues_def)
      show "has_sentinel j"
      proof (cases "has_sentinel i")
        case True
        with i(4) show ?thesis by (rule has_sentinel_mono)
      next
        case False
        with io i(2) have "Number j \<in> ?S" by blast
        with k j show ?thesis by simp
      qed
    qed
    have b: "length (open_issues w') = length (open_issues w0)"
      by (rule store_step_open_length[OF s0])
    from cnt e0 have v: "validatedCount acc = ?N - ?M" by simp
    from a b v show "(\<forall>j \<in> set (open_issues w'). has_sentinel j) \<and>
         length (open_issues w') = length (open_issues w0) \<and>
         validatedCount acc = ?N - ?M \<and> ?N - validatedCount acc = ?M" by simp
  qed
  show ?thesis
    by (rule exI[of _ "validatedCount acc"], rule exI[of _ "?N - validatedCount acc"],
        rule exI[of _ new])
       (intro conjI g1 r1 r2 r3 g5 g6 g7 s0 g9)
qed

lemma batch_from:
  assumes va: "validate_all E agent sp w1 = (Returned r, w')"
    and st: "store_issues w1 = store_issues w"
    and lg: "call_log w1 = call_log w @ pre"
    and pre: "\<forall>(c, oc) \<in> set pre. call_target c = None \<and> \<not> is_add_label c"
  shows "\<exists>validated skipped.
      r ''total_issues'' = Some (AnyInt (int (length (open_issues w)))) \<and>
      r ''validated_count'' = Some (AnyInt validated) \<and>
      r ''skipped_count'' = Some (AnyInt skipped) \<and>
      validated + skipped = int (length (open_issues w)) \<and>
      validated + error_count r =
        int (length (open_issues w)) - int (length (filter has_sentinel (open_issues w))) \<and>
      (\<forall>(c, oc) \<in> set (new_calls w w'). \<forall>n. call_target c = Some n \<longrightarrow>
          n \<in> Number ` {i \<in> set (open_issues w). \<not> has_sentinel i}) \<and>
      store_step (Number ` {i \<in> set (open_issues w). \<not> has_sentinel i}) w w' \<and>
      (r ''errors'' = None \<and>
       (\<forall>(c, oc) \<in> set (new_calls w w'). is_add_label c \<longrightarrow> oc = None) \<longrightarrow>
         (\<forall>j \<in> set (open_issues w'). has_sentinel j) \<and>
         length (open_issues w') = length (open_issues w) \<and>
         validated =
           int (length (open_issues w)) - int (length (filter has_sentinel (open_issues w))) \<and>
         skipped = int (length (filter has_sentinel (open_issues w))))"
proof -
  have ow: "open_issues w1 = open_issues w" using st by (simp add: open_issues_def)
  let ?S = "Number ` {i \<in> set (open_issues w). \<not> has_sentinel i}"
  let ?N = "int (length (open_issues w))"
  let ?M = "int (length (filter has_sentinel (open_issues w)))"
  from validate_all_run[OF va, unfolded ow] obtain validated skipped new where
    g1: "call_log w' = call_log w1 @ (ListIssuesCall ''open'', None) # new"
    and r1: "r ''total_issues'' = Some (AnyInt ?N)"
    and r2: "r ''validated_count'' = Some (AnyInt validated)"
    and r3: "r ''skipped_count'' = Some (AnyInt skipped)"
    and g5: "validated + skipped = ?N"
    and g6: "validated + error_count r = ?N - ?M"
    and g7: "\<forall>(c, oc) \<in> set new. \<forall>n. call_target c = Some n \<longrightarrow> n \<in> ?S"
    and s1: "store_step ?S w1 w'"
    and g9: "r ''errors'' = None \<and> (\<forall>(c, oc) \<in> set new. is_add_label c \<longrightarrow> oc = None) \<longrightarrow>
         (\<forall>j \<in> set (open_issues w'). has_sentinel j) \<and>
         length (open_issues w') = length (open_issues w) \<and> validated = ?N - ?M \<and> skipped = ?M"
    by (elim exE conjE) (rule that, assumption+)
  have nc: "new_calls w w' = pre @ (ListIssuesCall ''open'', None) # new"
    using g1 lg by (simp add: new_calls_def)
  have mem: "\<And>p. p \<in> set (new_calls w w') \<Longrightarrow>
      p \<in> set new \<or> (case p of (c, oc) \<Rightarrow> call_target c = None \<and> \<not> is_add_label c)"
  proof -
    fix p assume "p \<in> set (new_calls w w')"
    then have "p \<in> set pre \<or> p = (ListIssuesCall ''open'', None) \<or> p \<in> set new"
      unfolding nc by auto
    then show "p \<in> set new \<or> (case p of (c, oc) \<Rightarrow> call_target c = None \<and> \<not> is_add_label c)"
      using pre by auto
  qed
  have sub: "set new \<subseteq> set (new_calls w w')" unfolding nc by auto
  have h7: "\<forall>(c, oc) \<in> set (new_calls w w'). \<forall>n. call_target c = Some n \<longrightarrow> n \<in> ?S"
  proof
    fix p assume "p \<in> set (new_calls w w')"
    from mem[OF this] show "case p of (c, oc) \<Rightarrow> \<forall>n. call_target c = Some n \<longrightarrow> n \<in> ?S"
    proof
      assume "p \<in> set new"
      with g7 show ?thesis by (rule bspec)
    next
      assume "case p of (c, oc) \<Rightarrow> call_target c = None \<and> \<not> is_add_label c"
      then show ?thesis by (cases p) simp
    qed
  qed
  have s0: "store_step ?S w w'" using s1 st by (simp add: store_step_def)
  have h9: "r ''errors'' = None \<and>
       (\<forall>(c, oc) \<in> set (new_calls w w'). is_add_label c \<longrightarrow> oc = None) \<longrightarrow>
         (\<forall>j \<in> set (open_issues w'). has_sentinel j) \<and>
         length (open_issues w') = length (open_issues w) \<and> validated = ?N - ?M \<and> skipped = ?M"
  proof
    assume h: "r ''errors'' = None \<and>
       (\<forall>(c, oc) \<in> set (new_calls w w'). is_add_label c \<longrightarrow> oc = None)"
    then have "\<forall>(c, oc) \<in> set new. is_add_label c \<longrightarrow> oc = None" using sub by blast
    with h have "r ''errors'' = None \<and> (\<forall>(c, oc) \<in> set new. is_add_label c \<longrightarrow> oc = None)"
      by simp
    with g9 show "(\<forall>j \<in> set (open_issues w'). has_sentinel j) \<and>
         length (open_issues w') = length (open_issues w) \<and> validated = ?N - ?M \<and> skipped = ?M"
      by (rule mp)
  qed
  show ?thesis
    by (rule exI[of _ validated], rule exI[of _ skipped])
       (intro conjI r1 r2 r3 g5 g6 h7 s0 h9)
qed

text \<open>
  C5. For a run of \<open>executeValidator\<close> that returns a result, with \<open>N\<close> open issues in the
  store of which \<open>M\<close> carry the label \<open>agent-validator\<close>: the reported counts satisfy
  \<open>validated + skipped = N\<close>; \<open>N - M\<close> issues are evaluated, each counted as validated or as
  an error; every call of the run that writes to an issue has the number of an open issue
  without the label, and the issues with another number are left as they were; and when
  no error is reported and no call that adds the label fails, every open issue carries the
  label at the end, \<open>validated = N - M\<close> and \<open>skipped = M\<close>.
\<close>

theorem batch_validation:
  assumes "executeValidator E agent params w = (Returned r, w')"
  shows "\<exists>validated skipped.
      r ''total_issues'' = Some (AnyInt (int (length (open_issues w)))) \<and>
      r ''validated_count'' = Some (AnyInt validated) \<and>
      r ''skipped_count'' = Some (AnyInt skipped) \<and>
      validated + skipped = int (length (open_issues w)) \<and>
      validated + error_count r =
        int (length (open_issues w)) - int (length (filter has_sentinel (open_issues w))) \<and>
      (\<forall>(c, oc) \<in> set (new_calls w w'). \<forall>n. call_target c = Some n \<longrightarrow>
          n \<in> Number ` {i \<in> set (open_issues w). \<not> has_sentinel i}) \<and>
      store_step (Number ` {i \<in> set (open_issues w). \<not> has_sentinel i}) w w' \<and>
      (r ''errors'' = None \<and>
       (\<forall>(c, oc) \<in> set (new_calls w w'). is_add_label c \<longrightarrow> oc = None) \<longrightarrow>
         (\<forall>j \<in> set (open_issues w'). has_sentinel j) \<and>
         length (open_issues w') = length (open_issues w) \<and>
         validated =
           int (length (open_issues w)) - int (length (filter has_sentinel (open_issues w))) \<and>
         skipped = int (length (filter has_sentinel (open_issues w))))"
proof -
  obtain issueNum ok where vp: "validator_issue_param (float_overflow E) params = (issueNum, ok)"
    by (metis prod.exhaust)
  show ?thesis
  proof (cases "ok \<and> issueNum > 0")
    case False
    with assms vp have va: "validate_all E agent None w = (Returned r, w')"
      by (auto simp: executeValidator_def)
    show ?thesis
      by (rule batch_from[OF va, of w "[]"]) simp_all
  next
    case True
    obtain gr w1 where gi: "GetIssue E [] [] issueNum w = (gr, w1)" by (metis prod.exhaust)
    show ?thesis
    proof (cases gr)
      case (Inl err)
      with assms vp True gi show ?thesis by (simp add: executeValidator_def)
    next
      case (Inr issue)
      with assms vp True gi have va: "validate_all E agent (Some issue) w1 = (Returned r, w')"
        by (simp add: executeValidator_def)
      from GetIssue_effect[OF gi] Inr have
        st: "store_issues w1 = store_issues w"
        and lg: "call_log w1 = call_log w @ [(GetIssueCall [] [] issueNum, None)]"
        by (simp_all add: record_call_def)
      show ?thesis
        by (rule batch_from[OF va st lg]) simp
    qed
  qed
qed

lemma issue_new_valid: "checkFormat tbl default_rules issue_new = []"
  by (simp add: checkFormat_def default_rules_def issue_new_def issue0_def Contains_def
        ToLower_eval)

lemma validator_run:
  "\<exists>r. executeValidator quiet_env validator_agent Map.empty world3 =
         (Returned r,
          \<lparr>store_issues =
             [issue_done, issue_new\<lparr>Labels := [''priority:high'', ''agent-validator'']\<rparr>,
              issue_closed],
           store_comments = [],
           call_log =
             [(ListIssuesCall ''open'', None),
              (AddLabelCall [] [] 2 ''agent-validator'', None)],
           stdout_log = []\<rparr>) \<and>
       r ''errors'' = None \<and>
       r ''total_issues'' = Some (AnyInt 2) \<and>
       r ''validated_count'' = Some (AnyInt 1) \<and>
       r ''skipped_count'' = Some (AnyInt 1)"
proof -
  let ?w1 = "record_call (ListIssuesCall ''open'') None world3"
  let ?V = "NewValidator quiet_env default_rules None"
  have p: "validator_issue_param (float_overflow quiet_env) Map.empty = (0, False)"
    by (simp add: validator_issue_param_def)
  have li: "ListIssues quiet_env ''open'' world3 = (Inr [issue_done, issue_new], ?w1)"
    by (simp add: ListIssues_def quiet_env_def world3_def issue_done_def issue_new_def
          issue_closed_def issue0_def Let_def)
  have itv: "issuesToValidate_loop [issue_done, issue_new] [] = [issue_new]"
    by (simp add: issue_done_def issue_new_def issue0_def)
  have hl: "hasValidatorLabel (Labels issue_done)" "\<not> hasValidatorLabel (Labels issue_new)"
    by (simp_all add: issue_done_def issue_new_def issue0_def)
  have rv: "rules ?V = default_rules" by (simp add: NewValidator_def)
  have vf: "ValidateAndFix quiet_env ?V issue_new ?w1 = ((True, [], None), ?w1)"
    by (simp add: ValidateAndFix_def rv issue_new_valid)
  have u: "extractRepoFromURL (URL issue_new) = ([], [])"
    by (simp add: extractRepoFromURL_def issue_new_def issue0_def Split.simps)
  have n: "Number issue_new = 2" "Title issue_new = ''t''" by (simp_all add: issue_new_def issue0_def)
  have al: "AddLabel quiet_env [] [] 2 ''agent-validator'' ?w1 =
      (None,
       \<lparr>store_issues =
             [issue_done, issue_new\<lparr>Labels := [''priority:high'', ''agent-validator'']\<rparr>,
              issue_closed],
           store_comments = [],
           call_log =
             [(ListIssuesCall ''open'', None),
              (AddLabelCall [] [] 2 ''agent-validator'', None)],
           stdout_log = []\<rparr>)"
    by (simp add: AddLabel_def quiet_env_def world3_def record_call_def add_label_def
          issue_done_def issue_new_def issue_closed_def issue0_def Let_def)
  show ?thesis
    unfolding executeValidator_def p
    by (simp add: validate_all_def li hl validate_one_def vf u n al Let_def)
qed

theorem batch_validation_witness:
  "list_all has_sentinel
     (open_issues (snd (executeValidator quiet_env validator_agent Map.empty world3))) \<and>
   length (open_issues (snd (executeValidator quiet_env validator_agent Map.empty world3))) = 2"
proof -
  let ?W = "\<lparr>store_issues =
             [issue_done, issue_new\<lparr>Labels := [''priority:high'', ''agent-validator'']\<rparr>,
              issue_closed],
           store_comments = [],
           call_log =
             [(ListIssuesCall ''open'', None),
              (AddLabelCall [] [] 2 ''agent-validator'', None)],
           stdout_log = []\<rparr>"
  from validator_run obtain r where
    run: "executeValidator quiet_env validator_agent Map.empty world3 = (Returned r, ?W)"
    and e: "r ''errors'' = None"
    by (elim exE conjE) (rule that, assumption+)
  have nc: "new_calls world3 ?W =
      [(ListIssuesCall ''open'', None), (AddLabelCall [] [] 2 ''agent-validator'', None)]"
    by (simp add: new_calls_def world3_def)
  have ok: "\<forall>(c, oc) \<in> set (new_calls world3 ?W). is_add_label c \<longrightarrow> oc = None"
    unfolding nc by simp
  have o3: "length (open_issues world3) = 2"
    by (simp add: open_issues_def world3_def issue_done_def issue_new_def issue_closed_def issue0_def)
  from batch_validation[OF run] obtain validated skipped where
    "r ''errors'' = None \<and>
       (\<forall>(c, oc) \<in> set (new_calls world3 ?W). is_add_label c \<longrightarrow> oc = None) \<longrightarrow>
         (\<forall>j \<in> set (open_issues ?W). has_sentinel j) \<and>
         length (open_issues ?W) = length (open_issues world3) \<and>
         validated =
           int (length (open_issues world3)) - int (length (filter has_sentinel (open_issues world3))) \<and>
         skipped = int (length (filter has_sentinel (open_issues world3)))"
    by (elim exE conjE) (rule that, assumption+)
  with e ok have "(\<forall>j \<in> set (open_issues ?W). has_sentinel j) \<and>
         length (open_issues ?W) = length (open_issues world3)" by simp
  then show ?thesis unfolding run by (simp add: list_all_iff o3)
qed

end
